theory Spec2Isabelle
  imports Main "HOL-Library.AList" "HOL-Library.Sublist"
begin

section \<open>The service container (src/container/DIContainer.js)\<close>

text \<open>
  The container holds three JavaScript \<^verbatim>\<open>Map\<close>s: \<^verbatim>\<open>services\<close>, \<^verbatim>\<open>singletons\<close> and
  \<^verbatim>\<open>factories\<close>. A \<^verbatim>\<open>Map\<close> keeps its keys in insertion order, \<^verbatim>\<open>set\<close> on an existing
  key replaces the value in place, and \<^verbatim>\<open>keys()\<close> lists them in that order. It is modelled
  as an association list with \<open>map_of\<close> for \<^verbatim>\<open>get\<close> and \<open>AList.update\<close> for \<^verbatim>\<open>set\<close>.
\<close>

subsection \<open>Values, callable implementations and the runtime\<close>

type_synonym name = string

text \<open>
  A JavaScript value is a primitive, compared by value, or a reference to an object,
  compared by identity: two references are the same object exactly when their addresses
  are equal.
\<close>

datatype val = Prim string | Ref nat

datatype error =
    ServiceNotRegistered name   \<comment> \<open>\<^verbatim>\<open>Error(`Service '${name}' not registered`)\<close>\<close>
  | FactoryNotRegistered name   \<comment> \<open>\<^verbatim>\<open>Error(`Factory '${name}' not registered`)\<close>\<close>
  | Thrown string               \<comment> \<open>whatever a constructor or factory function throws itself\<close>

text \<open>
  The container never looks inside the functions registered with it: it only calls them.
  What a call does, seen from the container, is one of three things: it throws, it hands
  back a value that already exists (one of its arguments, a constant, a captured object),
  or it builds a new object. A registered function is taken to come back from every call
  and not to call the container itself: the constructors of this repository only store
  their arguments.
\<close>

datatype outcome = Fresh | Return val | Throw string

record callee =
  label :: string
  body :: "val list \<Rightarrow> outcome"

text \<open>
  The runtime around the container: the next unused object address, and the trace of
  every call the container has made into registered code, oldest first.
\<close>

record world =
  next_ref :: nat
  calls :: "(string \<times> val list) list"

text \<open>
  \<^verbatim>\<open>new implementation(...args)\<close>: a new object is allocated and the constructor runs
  on it. The result is the new object, unless the constructor returns an object of its
  own (a returned primitive is dropped).
\<close>

definition construct :: "callee \<Rightarrow> val list \<Rightarrow> world \<Rightarrow> (error + val) \<times> world" where
  "construct f args w =
     (let w1 = w\<lparr>calls := calls w @ [(label f, args)]\<rparr> in
      case body f args of
        Throw s \<Rightarrow> (Inl (Thrown s), w1)
      | Return (Ref a) \<Rightarrow> (Inr (Ref a), w1)
      | _ \<Rightarrow> (Inr (Ref (next_ref w1)), w1\<lparr>next_ref := Suc (next_ref w1)\<rparr>))"

text \<open>\<^verbatim>\<open>implementation(...args)\<close>: a plain call; the result is whatever the function returns.\<close>

definition invoke :: "callee \<Rightarrow> val list \<Rightarrow> world \<Rightarrow> (error + val) \<times> world" where
  "invoke f args w =
     (let w1 = w\<lparr>calls := calls w @ [(label f, args)]\<rparr> in
      case body f args of
        Throw s \<Rightarrow> (Inl (Thrown s), w1)
      | Return v \<Rightarrow> (Inr v, w1)
      | Fresh \<Rightarrow> (Inr (Ref (next_ref w1)), w1\<lparr>next_ref := Suc (next_ref w1)\<rparr>))"

subsection \<open>The stores\<close>

text \<open>
  An implementation is a plain value or a function (\<^verbatim>\<open>typeof implementation === 'function'\<close>).
  For a function the flag records the test
  \<^verbatim>\<open>implementation.prototype && implementation.prototype.constructor\<close>: true for classes and
  ordinary functions, false for arrow functions and methods.
\<close>

datatype impl = Value val | Function bool callee

record serviceConfig =
  implementation :: impl
  singleton :: bool
  dependencies :: "name list"
  factory :: bool

record factoryConfig =
  factory_fn :: callee
  factory_dependencies :: "name list"

record container =
  services :: "(name \<times> serviceConfig) list"
  singletons :: "(name \<times> val) list"
  factories :: "(name \<times> factoryConfig) list"

text \<open>\<^verbatim>\<open>constructor()\<close>: three empty maps.\<close>

definition new_container :: container where
  "new_container = \<lparr>services = [], singletons = [], factories = []\<rparr>"

subsection \<open>Registration\<close>

text \<open>
  The \<^verbatim>\<open>options\<close> object of \<^verbatim>\<open>register\<close>: every field may be missing, and
  \<^verbatim>\<open>options.x || default\<close> supplies the default.
\<close>

record options =
  opt_singleton :: "bool option"
  opt_dependencies :: "name list option"
  opt_factory :: "bool option"

definition no_options :: options where
  "no_options = \<lparr>opt_singleton = None, opt_dependencies = None, opt_factory = None\<rparr>"

definition register :: "container \<Rightarrow> name \<Rightarrow> impl \<Rightarrow> options \<Rightarrow> container" where
  "register c n i opts =
     (let serviceConfig =
        \<lparr>implementation = i,
         singleton = (case opt_singleton opts of Some b \<Rightarrow> b | None \<Rightarrow> False),
         dependencies = (case opt_dependencies opts of Some ds \<Rightarrow> ds | None \<Rightarrow> []),
         factory = (case opt_factory opts of Some b \<Rightarrow> b | None \<Rightarrow> False)\<rparr>
      in c\<lparr>services := AList.update n serviceConfig (services c)\<rparr>)"

definition registerSingleton :: "container \<Rightarrow> name \<Rightarrow> impl \<Rightarrow> name list \<Rightarrow> container" where
  "registerSingleton c n i deps =
     register c n i \<lparr>opt_singleton = Some True, opt_dependencies = Some deps, opt_factory = None\<rparr>"

definition registerFactory :: "container \<Rightarrow> name \<Rightarrow> callee \<Rightarrow> name list \<Rightarrow> container" where
  "registerFactory c n f deps =
     c\<lparr>factories := AList.update n \<lparr>factory_fn = f, factory_dependencies = deps\<rparr> (factories c)\<rparr>"

subsection \<open>Resolution\<close>

text \<open>
  \<^verbatim>\<open>resolve\<close> and \<^verbatim>\<open>createInstance\<close> call each other, and nothing in the code bounds the
  recursion. The first argument bounds the depth of nested \<^verbatim>\<open>resolve\<close> calls: \<open>None\<close> means
  the bound was reached, so a call returns exactly when some bound gives \<open>Some\<close>. A result
  carries the container and the runtime as the call left them, also when it throws: what
  was cached before the throw stays cached.

  \<open>resolveDependencies\<close> is \<^verbatim>\<open>dependencies.map(dep => this.resolve(dep))\<close>: left to right,
  stopping at the first throw.
\<close>

type_synonym 'a result = "((error + 'a) \<times> container \<times> world) option"

function resolve :: "nat \<Rightarrow> container \<Rightarrow> world \<Rightarrow> name \<Rightarrow> val result"
  and createInstance :: "nat \<Rightarrow> container \<Rightarrow> world \<Rightarrow> serviceConfig \<Rightarrow> val result"
  and resolveDependencies :: "nat \<Rightarrow> container \<Rightarrow> world \<Rightarrow> name list \<Rightarrow> val list result"
where
  "resolve 0 c w n = None"
| "resolve (Suc k) c w n =
     (case map_of (singletons c) n of
        Some v \<Rightarrow> Some (Inr v, c, w)
      | None \<Rightarrow>
         (case map_of (services c) n of
            None \<Rightarrow> Some (Inl (ServiceNotRegistered n), c, w)
          | Some serviceConfig \<Rightarrow>
             (case createInstance k c w serviceConfig of
                None \<Rightarrow> None
              | Some (Inl e, c1, w1) \<Rightarrow> Some (Inl e, c1, w1)
              | Some (Inr inst, c1, w1) \<Rightarrow>
                  if singleton serviceConfig
                  then Some (Inr inst, c1\<lparr>singletons := AList.update n inst (singletons c1)\<rparr>, w1)
                  else Some (Inr inst, c1, w1))))"
| "createInstance k c w serviceConfig =
     (case implementation serviceConfig of
        Function has_prototype f \<Rightarrow>
         (case resolveDependencies k c w (dependencies serviceConfig) of
            None \<Rightarrow> None
          | Some (Inl e, c1, w1) \<Rightarrow> Some (Inl e, c1, w1)
          | Some (Inr resolvedDependencies, c1, w1) \<Rightarrow>
              if has_prototype
              then (case construct f resolvedDependencies w1 of (r, w2) \<Rightarrow> Some (r, c1, w2))
              else (case invoke f resolvedDependencies w1 of (r, w2) \<Rightarrow> Some (r, c1, w2)))
      | Value v \<Rightarrow> Some (Inr v, c, w))"
| "resolveDependencies k c w [] = Some (Inr [], c, w)"
| "resolveDependencies k c w (dep # deps) =
     (case resolve k c w dep of
        None \<Rightarrow> None
      | Some (Inl e, c1, w1) \<Rightarrow> Some (Inl e, c1, w1)
      | Some (Inr v, c1, w1) \<Rightarrow>
         (case resolveDependencies k c1 w1 deps of
            None \<Rightarrow> None
          | Some (Inl e, c2, w2) \<Rightarrow> Some (Inl e, c2, w2)
          | Some (Inr vs, c2, w2) \<Rightarrow> Some (Inr (v # vs), c2, w2)))"
  by pat_completeness auto
termination
  by (relation "inv_image (less_than <*lex*> less_than)
        (\<lambda>x. case x of
           Inl (k, c, w, n) \<Rightarrow> (k, 0)
         | Inr (Inl (k, c, w, cfg)) \<Rightarrow> (k, length (dependencies cfg) + 2)
         | Inr (Inr (k, c, w, ds)) \<Rightarrow> (k, length ds + 1))")
     auto

text \<open>
  \<^verbatim>\<open>resolveFactory\<close>: the factory is called as a plain function, never with \<^verbatim>\<open>new\<close>, and
  its result is returned without touching any map.
\<close>

definition resolveFactory :: "nat \<Rightarrow> container \<Rightarrow> world \<Rightarrow> name \<Rightarrow> val result" where
  "resolveFactory k c w n =
     (case map_of (factories c) n of
        None \<Rightarrow> Some (Inl (FactoryNotRegistered n), c, w)
      | Some factoryConfig \<Rightarrow>
         (case resolveDependencies k c w (factory_dependencies factoryConfig) of
            None \<Rightarrow> None
          | Some (Inl e, c1, w1) \<Rightarrow> Some (Inl e, c1, w1)
          | Some (Inr resolvedDependencies, c1, w1) \<Rightarrow>
             (case invoke (factory_fn factoryConfig) resolvedDependencies w1 of
                (r, w2) \<Rightarrow> Some (r, c1, w2))))"

subsection \<open>Introspection and reset\<close>

definition map_has :: "('k \<times> 'v) list \<Rightarrow> 'k \<Rightarrow> bool" where
  "map_has m k = (map_of m k \<noteq> None)"

definition has :: "container \<Rightarrow> name \<Rightarrow> bool" where
  "has c n = (map_has (services c) n \<or> map_has (factories c) n)"

definition getRegisteredServices :: "container \<Rightarrow> name list" where
  "getRegisteredServices c = map fst (services c)"

definition clear :: "container \<Rightarrow> container" where
  "clear c = c\<lparr>services := [], singletons := [], factories := []\<rparr>"

subsection \<open>The public interface as a sequence of calls\<close>

text \<open>
  Client code uses the container through its eight methods. A client that catches what a
  call throws goes on with the container as the call left it, so a run of calls threads
  the container and the runtime through, whatever each call answers.
\<close>

datatype call =
    Register name impl options
  | RegisterSingleton name impl "name list"
  | RegisterFactory name callee "name list"
  | Resolve name
  | ResolveFactory name
  | Has name
  | GetRegisteredServices
  | Clear

datatype answer = Returned val | Raised error | Flag bool | Names "name list" | Nothing

fun answer_of :: "error + val \<Rightarrow> answer" where
  "answer_of (Inl e) = Raised e"
| "answer_of (Inr v) = Returned v"

fun perform :: "nat \<Rightarrow> container \<Rightarrow> world \<Rightarrow> call \<Rightarrow> (answer \<times> container \<times> world) option" where
  "perform k c w (Register n i opts) = Some (Nothing, register c n i opts, w)"
| "perform k c w (RegisterSingleton n i deps) = Some (Nothing, registerSingleton c n i deps, w)"
| "perform k c w (RegisterFactory n f deps) = Some (Nothing, registerFactory c n f deps, w)"
| "perform k c w (Resolve n) =
     (case resolve k c w n of None \<Rightarrow> None | Some (r, c', w') \<Rightarrow> Some (answer_of r, c', w'))"
| "perform k c w (ResolveFactory n) =
     (case resolveFactory k c w n of None \<Rightarrow> None | Some (r, c', w') \<Rightarrow> Some (answer_of r, c', w'))"
| "perform k c w (Has n) = Some (Flag (has c n), c, w)"
| "perform k c w GetRegisteredServices = Some (Names (getRegisteredServices c), c, w)"
| "perform k c w Clear = Some (Nothing, clear c, w)"

fun perform_all :: "nat \<Rightarrow> container \<Rightarrow> world \<Rightarrow> call list \<Rightarrow> (container \<times> world) option" where
  "perform_all k c w [] = Some (c, w)"
| "perform_all k c w (x # xs) =
     (case perform k c w x of None \<Rightarrow> None | Some (a, c', w') \<Rightarrow> perform_all k c' w' xs)"

subsection \<open>The dependency graph\<close>

text \<open>
  The declared dependency graph restricted to the names that are not cached: an edge from
  a dependency \<open>d\<close> to the service \<open>n\<close> that declares it, both without an entry in the
  singleton cache.
\<close>

definition dependency_graph :: "container \<Rightarrow> (name \<times> name) set" where
  "dependency_graph c =
     {(d, n). map_of (singletons c) n = None \<and> map_of (singletons c) d = None \<and>
              (\<exists>cfg. map_of (services c) n = Some cfg \<and> d \<in> set (dependencies cfg))}"

text \<open>
  \<open>requires c n m\<close>: resolving \<open>n\<close> in the container \<open>c\<close> has to resolve \<open>m\<close>, directly
  or through a chain of services that are not cached and whose implementation is a
  function (the dependencies of a plain value are never looked at).
\<close>

inductive requires :: "container \<Rightarrow> name \<Rightarrow> name \<Rightarrow> bool" for c :: container where
  direct:
    "map_of (singletons c) n = None \<Longrightarrow> map_of (services c) n = Some cfg \<Longrightarrow>
     implementation cfg = Function b f \<Longrightarrow> m \<in> set (dependencies cfg) \<Longrightarrow> requires c n m"
| chain:
    "map_of (singletons c) n = None \<Longrightarrow> map_of (services c) n = Some cfg \<Longrightarrow>
     implementation cfg = Function b f \<Longrightarrow> d \<in> set (dependencies cfg) \<Longrightarrow>
     requires c d m \<Longrightarrow> requires c n m"

subsection \<open>The bootstrap routine (src/container/registerServices.js)\<close>

text \<open>
  \<^verbatim>\<open>config\<close> is the object exported by the configuration module; the other six are
  classes whose constructors store their arguments.
\<close>

definition a_class :: "string \<Rightarrow> impl" where
  "a_class l = Function True \<lparr>label = l, body = (\<lambda>args. Fresh)\<rparr>"

definition config :: val where
  "config = Ref 0"

definition registerServices :: "container \<Rightarrow> container" where
  "registerServices c0 =
     (let c1 = registerSingleton c0 ''config'' (Value config) [];
          c2 = registerSingleton c1 ''logger'' (a_class ''LoggerService'') [''config''];
          c3 = registerSingleton c2 ''databaseService'' (a_class ''DatabaseService'')
                 [''config'', ''logger''];
          c4 = registerSingleton c3 ''emailService'' (a_class ''EmailService'')
                 [''config'', ''logger''];
          c5 = registerSingleton c4 ''studentRepository'' (a_class ''StudentRepository'')
                 [''databaseService'', ''logger''];
          c6 = registerSingleton c5 ''studentService'' (a_class ''StudentService'')
                 [''studentRepository'', ''emailService'', ''logger''];
          c7 = registerSingleton c6 ''studentController'' (a_class ''StudentController'')
                 [''studentService'', ''logger'']
      in c7)"

text \<open>The runtime at start-up: the configuration object is the only object there is.\<close>

definition startup :: world where
  "startup = \<lparr>next_ref = 1, calls = []\<rparr>"

subsection \<open>Auxiliary notions\<close>

text \<open>
  What every resolution respects: descriptors and factories stay as they are, cache entries
  are only added, object addresses only grow and the trace is only extended.
\<close>

definition frame :: "container \<Rightarrow> world \<Rightarrow> container \<Rightarrow> world \<Rightarrow> bool" where
  "frame c w c' w' \<longleftrightarrow>
     services c' = services c \<and> factories c' = factories c \<and>
     map_of (singletons c) \<subseteq>\<^sub>m map_of (singletons c') \<and>
     next_ref w \<le> next_ref w' \<and> prefix (calls w) (calls w')"

text \<open>Only singleton-flagged names enter the cache.\<close>

definition cached_from :: "container \<Rightarrow> container \<Rightarrow> bool" where
  "cached_from c c' \<longleftrightarrow>
     (\<forall>n. map_of (singletons c) n = None \<longrightarrow> map_of (singletons c') n \<noteq> None \<longrightarrow>
        (\<exists>cfg. map_of (services c) n = Some cfg \<and> singleton cfg))"

text \<open>
  A set of names none of which can ever be resolved to an instance: each is uncached and,
  if registered at all, is a function that declares a dependency in the set.
\<close>

definition stuck :: "name set \<Rightarrow> container \<Rightarrow> bool" where
  "stuck S c \<longleftrightarrow>
     (\<forall>n\<in>S. map_of (singletons c) n = None \<and>
        (\<forall>cfg. map_of (services c) n = Some cfg \<longrightarrow>
           (\<exists>b f d. implementation cfg = Function b f \<and> d \<in> set (dependencies cfg) \<and> d \<in> S)))"


text \<open>
  \<open>needs c x d\<close>: resolving \<open>x\<close> in \<open>c\<close> resolves \<open>d\<close> at once, as one of the declared
  dependencies of an uncached function; \<open>requires\<close> is a chain of such steps.
\<close>

definition needs :: "container \<Rightarrow> name \<Rightarrow> name \<Rightarrow> bool" where
  "needs c x d \<longleftrightarrow>
     map_of (singletons c) x = None \<and>
     (\<exists>cfg b f. map_of (services c) x = Some cfg \<and> implementation cfg = Function b f \<and>
        d \<in> set (dependencies cfg))"

text \<open>
  The same origins of an error, placed: the unregistered name, or the service whose
  function throws, is the resolved name itself or one that it requires.
\<close>

definition raised_below :: "container \<Rightarrow> name \<Rightarrow> error \<Rightarrow> bool" where
  "raised_below c n e \<longleftrightarrow>
     (case e of
        ServiceNotRegistered m \<Rightarrow>
          (m = n \<or> requires c n m) \<and>
          map_of (singletons c) m = None \<and> map_of (services c) m = None
      | FactoryNotRegistered m \<Rightarrow> False
      | Thrown s \<Rightarrow>
          (\<exists>p cfg b f args. (p = n \<or> requires c n p) \<and> map_of (singletons c) p = None \<and>
             map_of (services c) p = Some cfg \<and>
             implementation cfg = Function b f \<and> body f args = Throw s))"

subsection \<open>States of the bootstrapped container used as examples\<close>

text \<open>The bootstrapped container after \<^verbatim>\<open>resolve('logger')\<close>, and the runtime then.\<close>

definition logger_cached :: container where
  "logger_cached =
     (registerServices new_container)\<lparr>singletons := [(''config'', config), (''logger'', Ref 1)]\<rparr>"

definition logger_built :: world where
  "logger_built = \<lparr>next_ref = 2, calls = [(''LoggerService'', [config])]\<rparr>"

text \<open>
  Then \<^verbatim>\<open>resolve('databaseService')\<close>, and \<^verbatim>\<open>register('logger', 'other')\<close> over the cached
  logger.
\<close>

definition logger_overwritten :: container where
  "logger_overwritten =
     (register (registerServices new_container) ''logger'' (Value (Prim ''other'')) no_options)
       \<lparr>singletons := [(''config'', config), (''logger'', Ref 1), (''databaseService'', Ref 2)]\<rparr>"

definition database_built :: world where
  "database_built =
     \<lparr>next_ref = 3,
      calls = [(''LoggerService'', [config]), (''DatabaseService'', [config, Ref 1])]\<rparr>"

text \<open>A configuration object registered with plain \<^verbatim>\<open>register\<close>: a transient plain value.\<close>

definition transient_config :: container where
  "transient_config = register new_container ''config'' (Value config) no_options"

text \<open>
  A transient class \<^verbatim>\<open>Report\<close> depending on the logger, registered after the logger was
  resolved; the runtime after building one report, and after building two.
\<close>

definition with_report :: container where
  "with_report =
     register logger_cached ''report'' (a_class ''Report'')
       \<lparr>opt_singleton = None, opt_dependencies = Some [''logger''], opt_factory = None\<rparr>"

definition report_built :: world where
  "report_built =
     \<lparr>next_ref = 3, calls = [(''LoggerService'', [config]), (''Report'', [Ref 1])]\<rparr>"

definition report_built_twice :: world where
  "report_built_twice =
     \<lparr>next_ref = 4,
      calls = [(''LoggerService'', [config]), (''Report'', [Ref 1]), (''Report'', [Ref 1])]\<rparr>"

text \<open>
  The steps of \<^verbatim>\<open>resolve('studentService')\<close> on the bootstrapped container: after the
  repository, after the email service, and after the service itself is built.
\<close>

definition repository_cached :: container where
  "repository_cached =
     (registerServices new_container)
       \<lparr>singletons := [(''config'', config), (''logger'', Ref 1), (''databaseService'', Ref 2),
                       (''studentRepository'', Ref 3)]\<rparr>"

definition repository_built :: world where
  "repository_built =
     \<lparr>next_ref = 4,
      calls = [(''LoggerService'', [config]), (''DatabaseService'', [config, Ref 1]),
               (''StudentRepository'', [Ref 2, Ref 1])]\<rparr>"

definition email_cached :: container where
  "email_cached =
     (registerServices new_container)
       \<lparr>singletons := [(''config'', config), (''logger'', Ref 1), (''databaseService'', Ref 2),
                       (''studentRepository'', Ref 3), (''emailService'', Ref 4)]\<rparr>"

definition email_built :: world where
  "email_built =
     \<lparr>next_ref = 5,
      calls = [(''LoggerService'', [config]), (''DatabaseService'', [config, Ref 1]),
               (''StudentRepository'', [Ref 2, Ref 1]), (''EmailService'', [config, Ref 1])]\<rparr>"

definition service_built :: world where
  "service_built =
     \<lparr>next_ref = 6,
      calls = [(''LoggerService'', [config]), (''DatabaseService'', [config, Ref 1]),
               (''StudentRepository'', [Ref 2, Ref 1]), (''EmailService'', [config, Ref 1]),
               (''StudentService'', [Ref 3, Ref 4, Ref 1])]\<rparr>"

text \<open>A factory depending on the logger, and the runtime after one call of it.\<close>

definition with_factory :: container where
  "with_factory =
     registerFactory logger_cached ''makeReport''
       \<lparr>label = ''makeReport'', body = (\<lambda>args. Fresh)\<rparr> [''logger'']"

definition factory_called :: world where
  "factory_called =
     \<lparr>next_ref = 3, calls = [(''LoggerService'', [config]), (''makeReport'', [Ref 1])]\<rparr>"

text \<open>
  More services on top of the bootstrap: \<^verbatim>\<open>dashboard\<close> needs \<^verbatim>\<open>audit\<close>, which needs the
  logger and a name nobody registered; \<^verbatim>\<open>ping\<close> and \<^verbatim>\<open>pong\<close> need each other and nobody
  else needs them. The second container is the first after the failed
  \<^verbatim>\<open>resolve('dashboard')\<close>.
\<close>

definition with_ghost :: container where
  "with_ghost =
     (let c1 = registerSingleton (registerServices new_container) ''audit'' (a_class ''Audit'')
                 [''logger'', ''ghost''];
          c2 = registerSingleton c1 ''dashboard'' (a_class ''Dashboard'') [''audit''];
          c3 = registerSingleton c2 ''ping'' (a_class ''Ping'') [''pong''];
          c4 = registerSingleton c3 ''pong'' (a_class ''Pong'') [''ping'']
      in c4)"

definition ghost_met :: container where
  "ghost_met = with_ghost\<lparr>singletons := [(''config'', config), (''logger'', Ref 1)]\<rparr>"

text \<open>
  Two classes that depend on each other, the first through its second dependency; the
  first dependency is a class without dependencies.
\<close>

definition cyclic :: container where
  "cyclic =
     (let c1 = registerSingleton new_container ''x'' (a_class ''X'') [];
          c2 = registerSingleton c1 ''a'' (a_class ''A'') [''x'', ''b''];
          c3 = registerSingleton c2 ''b'' (a_class ''B'') [''a'']
      in c3)"

text \<open>
  A plain value that declares a dependency on a class that depends on it, and the
  container and runtime after \<^verbatim>\<open>resolve('b')\<close>.
\<close>

definition value_in_cycle :: container where
  "value_in_cycle =
     registerSingleton (registerSingleton new_container ''a'' (Value config) [''b''])
       ''b'' (a_class ''B'') [''a'']"

definition value_cycle_resolved :: container where
  "value_cycle_resolved = value_in_cycle\<lparr>singletons := [(''a'', config), (''b'', Ref 1)]\<rparr>"

definition b_built :: world where
  "b_built = \<lparr>next_ref = 2, calls = [(''B'', [config])]\<rparr>"

text \<open>
  A class whose constructor throws, required before a name nobody registered; and the
  same unregistered name behind a dependency cycle.
\<close>

definition ghost_after_thrower :: container where
  "ghost_after_thrower =
     registerSingleton
       (registerSingleton new_container ''t''
          (Function True \<lparr>label = ''T'', body = (\<lambda>args. Throw ''boom'')\<rparr>) [])
       ''a'' (a_class ''A'') [''t'', ''ghost'']"

definition t_called :: world where
  "t_called = \<lparr>next_ref = 1, calls = [(''T'', [])]\<rparr>"

definition ghost_after_cycle :: container where
  "ghost_after_cycle =
     registerSingleton (registerSingleton new_container ''a'' (a_class ''A'') [''b'', ''ghost''])
       ''b'' (a_class ''B'') [''a'']"

text \<open>In the bootstrap every service is registered after the services it depends on.\<close>

definition bootstrap_rank :: "name \<Rightarrow> nat" where
  "bootstrap_rank x =
     (if x = ''config'' then 6 else if x = ''logger'' then 5
      else if x = ''databaseService'' then 4 else if x = ''emailService'' then 4
      else if x = ''studentRepository'' then 3 else if x = ''studentService'' then 2
      else if x = ''studentController'' then 1 else 7)"

section \<open>Basic facts\<close>

subsection \<open>Case analysis of a call that returns\<close>

lemma resolve_Suc_cases [consumes 1, case_names cached unregistered failed created]:
  assumes "resolve (Suc k) c w n = Some (r, c', w')"
  obtains
    v where "map_of (singletons c) n = Some v" "r = Inr v" "c' = c" "w' = w"
  | "map_of (singletons c) n = None" "map_of (services c) n = None"
      "r = Inl (ServiceNotRegistered n)" "c' = c" "w' = w"
  | cfg e where "map_of (singletons c) n = None" "map_of (services c) n = Some cfg"
      "createInstance k c w cfg = Some (Inl e, c', w')" "r = Inl e"
  | cfg inst c1 where "map_of (singletons c) n = None" "map_of (services c) n = Some cfg"
      "createInstance k c w cfg = Some (Inr inst, c1, w')" "r = Inr inst"
      "c' = (if singleton cfg then c1\<lparr>singletons := AList.update n inst (singletons c1)\<rparr> else c1)"
  using assms by (auto split: option.splits sum.splits if_splits)

lemma createInstance_cases [consumes 1, case_names plain dep_failed called]:
  assumes "createInstance k c w cfg = Some (r, c', w')"
  obtains
    v where "implementation cfg = Value v" "r = Inr v" "c' = c" "w' = w"
  | b f e where "implementation cfg = Function b f"
      "resolveDependencies k c w (dependencies cfg) = Some (Inl e, c', w')" "r = Inl e"
  | b f args w1 where "implementation cfg = Function b f"
      "resolveDependencies k c w (dependencies cfg) = Some (Inr args, c', w1)"
      "(if b then construct f args w1 else invoke f args w1) = (r, w')"
  using assms by (auto split: option.splits sum.splits if_splits impl.splits prod.splits)

lemma resolveDependencies_Cons_cases [consumes 1, case_names head_failed tail_failed resolved]:
  assumes "resolveDependencies k c w (d # ds) = Some (r, c', w')"
  obtains
    e where "resolve k c w d = Some (Inl e, c', w')" "r = Inl e"
  | v c1 w1 e where "resolve k c w d = Some (Inr v, c1, w1)"
      "resolveDependencies k c1 w1 ds = Some (Inl e, c', w')" "r = Inl e"
  | v c1 w1 vs where "resolve k c w d = Some (Inr v, c1, w1)"
      "resolveDependencies k c1 w1 ds = Some (Inr vs, c', w')" "r = Inr (v # vs)"
  using assms by (auto split: option.splits sum.splits)

subsection \<open>What a resolution leaves unchanged\<close>

lemma construct_world:
  "construct f args w = (r, w') \<Longrightarrow>
     next_ref w \<le> next_ref w' \<and> calls w' = calls w @ [(label f, args)]"
  by (auto simp: construct_def Let_def split: outcome.splits val.splits)

lemma invoke_world:
  "invoke f args w = (r, w') \<Longrightarrow>
     next_ref w \<le> next_ref w' \<and> calls w' = calls w @ [(label f, args)]"
  by (auto simp: invoke_def Let_def split: outcome.splits)


lemma frame_refl: "frame c w c w"
  by (simp add: frame_def)

lemma frame_trans: "frame a u b v \<Longrightarrow> frame b v c w \<Longrightarrow> frame a u c w"
  unfolding frame_def by (auto intro: map_le_trans)

lemma frame_update:
  "frame c w c1 w1 \<Longrightarrow> map_of (singletons c) n = None \<Longrightarrow>
   frame c w (c1\<lparr>singletons := AList.update n v (singletons c1)\<rparr>) w1"
  by (auto simp: frame_def map_le_def AList.update_conv' dom_def)

lemma frame_call:
  "frame c w c1 w1 \<Longrightarrow> (if b then construct f args w1 else invoke f args w1) = (r, w') \<Longrightarrow>
   frame c w c1 w'"
  by (auto simp: frame_def split: if_splits dest!: construct_world invoke_world)

lemma resolve_frame:
  "resolve k c w n = Some (r, c', w') \<Longrightarrow> frame c w c' w'"
  "createInstance k c w cfg = Some (r, c', w') \<Longrightarrow> frame c w c' w'"
  "resolveDependencies k c w ds = Some (rs, c', w') \<Longrightarrow> frame c w c' w'"
proof (induction k c w n and k c w cfg and k c w ds
       arbitrary: r c' w' and r c' w' and rs c' w'
       rule: resolve_createInstance_resolveDependencies.induct)
  case (1 c w n)
  then show ?case by simp
next
  case (2 k c w n)
  from "2.prems" show ?case
  proof (cases rule: resolve_Suc_cases)
    case (failed cfg e)
    then show ?thesis using "2.IH" by blast
  next
    case (created cfg inst c1)
    from "2.IH"[OF created(1,2,3)] have "frame c w c1 w'" .
    with created show ?thesis by (simp add: frame_update)
  qed (simp_all add: frame_refl)
next
  case (3 k c w cfg)
  from "3.prems" show ?case
  proof (cases rule: createInstance_cases)
    case (dep_failed b f e)
    then show ?thesis using "3.IH" by blast
  next
    case (called b f args w1)
    from "3.IH"[OF called(1,2)] have "frame c w c' w1" .
    then show ?thesis using called(3) by (rule frame_call)
  qed (simp_all add: frame_refl)
next
  case (4 k c w)
  then show ?case by (simp add: frame_refl)
next
  case (5 k c w d ds)
  from "5.prems" show ?case
  proof (cases rule: resolveDependencies_Cons_cases)
    case (head_failed e)
    then show ?thesis using "5.IH"(1) by blast
  next
    case (tail_failed v c1 w1 e)
    from "5.IH"(1)[OF tail_failed(1)] "5.IH"(2)[OF tail_failed(1) refl refl refl tail_failed(2)]
    show ?thesis by (rule frame_trans)
  next
    case (resolved v c1 w1 vs)
    from "5.IH"(1)[OF resolved(1)] "5.IH"(2)[OF resolved(1) refl refl refl resolved(2)]
    show ?thesis by (rule frame_trans)
  qed
qed

subsection \<open>Cache entries stay\<close>

lemma resolve_cached:
  "map_of (singletons c) n = Some v \<Longrightarrow> resolve (Suc k) c w n = Some (Inr v, c, w)"
  by simp

lemma resolve_unregistered:
  "map_of (singletons c) n = None \<Longrightarrow> map_of (services c) n = None \<Longrightarrow>
   resolve (Suc k) c w n = Some (Inl (ServiceNotRegistered n), c, w)"
  by simp

lemma resolve_keeps_cached:
  assumes "resolve k c w m = Some (r, c', w')" "map_of (singletons c) n = Some v"
  shows "map_of (singletons c') n = Some v"
  using resolve_frame(1)[OF assms(1)] assms(2)
  by (auto simp: frame_def map_le_def dom_def)

lemma resolveDependencies_keeps_cached:
  assumes "resolveDependencies k c w ds = Some (r, c', w')" "map_of (singletons c) n = Some v"
  shows "map_of (singletons c') n = Some v"
  using resolve_frame(3)[OF assms(1)] assms(2)
  by (auto simp: frame_def map_le_def dom_def)

lemma resolveFactory_keeps_cached:
  assumes "resolveFactory k c w m = Some (r, c', w')" "map_of (singletons c) n = Some v"
  shows "map_of (singletons c') n = Some v"
  using assms
  by (auto simp: resolveFactory_def split: option.splits sum.splits prod.splits
           dest: resolveDependencies_keeps_cached)

lemma perform_keeps_cached:
  assumes "perform k c w x = Some (a, c', w')" "x \<noteq> Clear" "map_of (singletons c) n = Some v"
  shows "map_of (singletons c') n = Some v"
  using assms
  by (cases x)
     (auto simp: register_def registerSingleton_def registerFactory_def Let_def
           split: option.splits
           dest: resolve_keeps_cached resolveFactory_keeps_cached)

lemma perform_all_keeps_cached:
  "perform_all k c w xs = Some (c', w') \<Longrightarrow> Clear \<notin> set xs \<Longrightarrow>
   map_of (singletons c) n = Some v \<Longrightarrow> map_of (singletons c') n = Some v"
proof (induction xs arbitrary: c w)
  case Nil
  then show ?case by simp
next
  case (Cons x xs)
  from Cons.prems(1) obtain a c1 w1 where
    p: "perform k c w x = Some (a, c1, w1)" and rest: "perform_all k c1 w1 xs = Some (c', w')"
    by (auto split: option.splits)
  from p Cons.prems(2,3) have "map_of (singletons c1) n = Some v"
    by (auto intro: perform_keeps_cached)
  with Cons.IH[OF rest] Cons.prems(2) show ?case by simp
qed

lemma resolve_singleton_cached:
  assumes "resolve k c w n = Some (Inr v, c', w')"
    and "map_of (services c) n = Some cfg" "singleton cfg"
  shows "map_of (singletons c') n = Some v"
proof (cases k)
  case 0
  with assms(1) show ?thesis by simp
next
  case (Suc j)
  from assms(1)[unfolded Suc] show ?thesis
    by (cases rule: resolve_Suc_cases) (use assms(2,3) in \<open>auto simp: AList.update_conv'\<close>)
qed

subsection \<open>Errors\<close>


lemma construct_error:
  "construct f args w = (Inl e, w') \<Longrightarrow> \<exists>s. e = Thrown s \<and> body f args = Throw s"
  by (auto simp: construct_def Let_def split: outcome.splits val.splits)

lemma invoke_error:
  "invoke f args w = (Inl e, w') \<Longrightarrow> \<exists>s. e = Thrown s \<and> body f args = Throw s"
  by (auto simp: invoke_def Let_def split: outcome.splits)


subsection \<open>A larger depth bound changes nothing\<close>

lemma fuel_Suc:
  "resolve k c w n = Some x \<Longrightarrow> resolve (Suc k) c w n = Some x"
  "createInstance k c w cfg = Some x \<Longrightarrow> createInstance (Suc k) c w cfg = Some x"
  "resolveDependencies k c w ds = Some y \<Longrightarrow> resolveDependencies (Suc k) c w ds = Some y"
proof (induction k c w n and k c w cfg and k c w ds
       arbitrary: x and x and y
       rule: resolve_createInstance_resolveDependencies.induct)
  case (1 c w n)
  then show ?case by simp
next
  case (2 k c w n)
  show ?case
  proof (cases "map_of (singletons c) n")
    case None
    note nc = this
    show ?thesis
    proof (cases "map_of (services c) n")
      case None
      with nc "2.prems" show ?thesis by simp
    next
      case (Some cfg)
      with nc "2.prems" obtain z where z: "createInstance k c w cfg = Some z"
        by (auto split: option.splits)
      from "2.IH"[OF nc Some z] have "createInstance (Suc k) c w cfg = Some z" .
      with z nc Some "2.prems" show ?thesis
        by (simp del: createInstance.simps)
    qed
  next
    case (Some v)
    with "2.prems" show ?thesis by simp
  qed
next
  case (3 k c w cfg)
  show ?case
  proof (cases "implementation cfg")
    case (Value v)
    with "3.prems" show ?thesis by simp
  next
    case (Function b f)
    with "3.prems" obtain z where z: "resolveDependencies k c w (dependencies cfg) = Some z"
      by (auto split: option.splits)
    from "3.IH"[OF Function z] have "resolveDependencies (Suc k) c w (dependencies cfg) = Some z" .
    with z Function "3.prems" show ?thesis
      by simp
  qed
next
  case (4 k c w)
  then show ?case by simp
next
  case (5 k c w d ds)
  from "5.prems" obtain z where z: "resolve k c w d = Some z"
    by (auto split: option.splits)
  from "5.IH"(1)[OF z] have z': "resolve (Suc k) c w d = Some z" .
  obtain r c1 w1 where zz: "z = (r, c1, w1)" by (cases z)
  show ?case
  proof (cases r)
    case (Inl e)
    with z z' zz "5.prems" show ?thesis by (simp del: resolve.simps)
  next
    case (Inr v)
    with z zz "5.prems" obtain u where u: "resolveDependencies k c1 w1 ds = Some u"
      by (auto split: option.splits)
    from "5.IH"(2)[OF z[unfolded zz Inr] refl refl refl u]
    have "resolveDependencies (Suc k) c1 w1 ds = Some u" .
    with u z z' zz Inr "5.prems" show ?thesis by (simp del: resolve.simps)
  qed
qed

lemma fuel_mono:
  assumes "k \<le> j"
  shows "resolve k c w n = Some x \<Longrightarrow> resolve j c w n = Some x"
    and "resolveDependencies k c w ds = Some y \<Longrightarrow> resolveDependencies j c w ds = Some y"
  using assms by (induction rule: dec_induct) (auto intro: fuel_Suc simp del: resolve.simps)

subsection \<open>What enters the cache\<close>

lemma cached_from_refl: "cached_from c c"
  by (simp add: cached_from_def)

lemma cached_from_trans:
  "cached_from a b \<Longrightarrow> services b = services a \<Longrightarrow> cached_from b c \<Longrightarrow> cached_from a c"
  unfolding cached_from_def by metis

lemma cached_from_update:
  "cached_from c c1 \<Longrightarrow> map_of (services c) n = Some cfg \<Longrightarrow> singleton cfg \<Longrightarrow>
   cached_from c (c1\<lparr>singletons := AList.update n v (singletons c1)\<rparr>)"
  by (auto simp: cached_from_def AList.update_conv')

lemma resolve_cached_from:
  "resolve k c w n = Some (r, c', w') \<Longrightarrow> cached_from c c'"
  "createInstance k c w cfg = Some (r, c', w') \<Longrightarrow> cached_from c c'"
  "resolveDependencies k c w ds = Some (rs, c', w') \<Longrightarrow> cached_from c c'"
proof (induction k c w n and k c w cfg and k c w ds
       arbitrary: r c' w' and r c' w' and rs c' w'
       rule: resolve_createInstance_resolveDependencies.induct)
  case (1 c w n)
  then show ?case by simp
next
  case (2 k c w n)
  from "2.prems" show ?case
  proof (cases rule: resolve_Suc_cases)
    case (failed cfg e)
    then show ?thesis using "2.IH" by blast
  next
    case (created cfg inst c1)
    from "2.IH"[OF created(1,2,3)] have "cached_from c c1" .
    with created show ?thesis by (simp add: cached_from_update)
  qed (simp_all add: cached_from_refl)
next
  case (3 k c w cfg)
  from "3.prems" show ?case
  proof (cases rule: createInstance_cases)
    case (dep_failed b f e)
    then show ?thesis using "3.IH" by blast
  next
    case (called b f args w1)
    from "3.IH"[OF called(1,2)] show ?thesis .
  qed (simp_all add: cached_from_refl)
next
  case (4 k c w)
  then show ?case by (simp add: cached_from_refl)
next
  case (5 k c w d ds)
  from "5.prems" show ?case
  proof (cases rule: resolveDependencies_Cons_cases)
    case (head_failed e)
    then show ?thesis using "5.IH"(1) by blast
  next
    case (tail_failed v c1 w1 e)
    from resolve_frame(1)[OF tail_failed(1)] have "services c1 = services c"
      by (simp add: frame_def)
    with "5.IH"(1)[OF tail_failed(1)] "5.IH"(2)[OF tail_failed(1) refl refl refl tail_failed(2)]
    show ?thesis by (blast intro: cached_from_trans)
  next
    case (resolved v c1 w1 vs)
    from resolve_frame(1)[OF resolved(1)] have "services c1 = services c"
      by (simp add: frame_def)
    with "5.IH"(1)[OF resolved(1)] "5.IH"(2)[OF resolved(1) refl refl refl resolved(2)]
    show ?thesis by (blast intro: cached_from_trans)
  qed
qed

lemma transient_stays_uncached:
  assumes "resolveDependencies k c w ds = Some (rs, c', w')"
    and "map_of (singletons c) n = None" "map_of (services c) n = Some cfg" "\<not> singleton cfg"
  shows "map_of (singletons c') n = None"
proof (rule ccontr)
  assume "map_of (singletons c') n \<noteq> None"
  with resolve_cached_from(3)[OF assms(1)] assms(2)
  have "\<exists>cfg. map_of (services c) n = Some cfg \<and> singleton cfg"
    unfolding cached_from_def by blast
  with assms(3,4) show False by simp
qed

lemma construct_Fresh:
  "body f args = Fresh \<Longrightarrow>
   construct f args w = (Inr (Ref (next_ref w)), w\<lparr>calls := calls w @ [(label f, args)], next_ref := Suc (next_ref w)\<rparr>)"
  by (simp add: construct_def)

lemma invoke_Fresh:
  "body f args = Fresh \<Longrightarrow>
   invoke f args w = (Inr (Ref (next_ref w)), w\<lparr>calls := calls w @ [(label f, args)], next_ref := Suc (next_ref w)\<rparr>)"
  by (simp add: invoke_def)

subsection \<open>Names that cannot be resolved\<close>

lemma stuck_update:
  "stuck S c \<Longrightarrow> n \<notin> S \<Longrightarrow> stuck S (c\<lparr>singletons := AList.update n v (singletons c)\<rparr>)"
  unfolding stuck_def by (auto simp: AList.update_conv')

lemma stuck_Function:
  "stuck S c \<Longrightarrow> n \<in> S \<Longrightarrow> map_of (services c) n = Some cfg \<Longrightarrow>
   \<exists>b f d. implementation cfg = Function b f \<and> d \<in> set (dependencies cfg) \<and> d \<in> S"
  unfolding stuck_def by blast

lemma stuck_uncached: "stuck S c \<Longrightarrow> n \<in> S \<Longrightarrow> map_of (singletons c) n = None"
  unfolding stuck_def by blast

lemma stuck_never_resolves:
  "resolve k c w n = Some (r, c', w') \<Longrightarrow> stuck S c \<Longrightarrow>
     stuck S c' \<and> (n \<in> S \<longrightarrow> isl r)"
  "createInstance k c w cfg = Some (r, c', w') \<Longrightarrow> stuck S c \<Longrightarrow>
     stuck S c' \<and>
     ((\<exists>b f d. implementation cfg = Function b f \<and> d \<in> set (dependencies cfg) \<and> d \<in> S)
        \<longrightarrow> isl r)"
  "resolveDependencies k c w ds = Some (rs, c', w') \<Longrightarrow> stuck S c \<Longrightarrow>
     stuck S c' \<and> (set ds \<inter> S \<noteq> {} \<longrightarrow> isl rs)"
proof (induction k c w n and k c w cfg and k c w ds
       arbitrary: r c' w' and r c' w' and rs c' w'
       rule: resolve_createInstance_resolveDependencies.induct)
  case (1 c w n)
  then show ?case by simp
next
  case (2 k c w n)
  from "2.prems"(1) show ?case
  proof (cases rule: resolve_Suc_cases)
    case (cached v)
    with "2.prems"(2) show ?thesis by (auto dest: stuck_uncached)
  next
    case unregistered
    with "2.prems"(2) show ?thesis by simp
  next
    case (failed cfg e)
    with "2.IH"[OF failed(1,2,3) "2.prems"(2)] show ?thesis by simp
  next
    case (created cfg inst c1)
    from "2.IH"[OF created(1,2,3) "2.prems"(2)] have
      st: "stuck S c1" and
      nodep: "\<not> (\<exists>b f d. implementation cfg = Function b f \<and> d \<in> set (dependencies cfg) \<and> d \<in> S)"
      by auto
    from nodep created(2) "2.prems"(2) have "n \<notin> S"
      by (auto dest: stuck_Function)
    with st created show ?thesis by (simp add: stuck_update)
  qed
next
  case (3 k c w cfg)
  from "3.prems"(1) show ?case
  proof (cases rule: createInstance_cases)
    case (plain v)
    with "3.prems"(2) show ?thesis by simp
  next
    case (dep_failed b f e)
    with "3.IH"[OF dep_failed(1,2) "3.prems"(2)] show ?thesis by simp
  next
    case (called b f args w1)
    with "3.IH"[OF called(1,2) "3.prems"(2)] show ?thesis by auto
  qed
next
  case (4 k c w)
  then show ?case by simp
next
  case (5 k c w d ds)
  from "5.prems"(1) show ?case
  proof (cases rule: resolveDependencies_Cons_cases)
    case (head_failed e)
    with "5.IH"(1)[OF head_failed(1) "5.prems"(2)] show ?thesis by simp
  next
    case (tail_failed v c1 w1 e)
    from "5.IH"(1)[OF tail_failed(1) "5.prems"(2)] have "stuck S c1" by simp
    from "5.IH"(2)[OF tail_failed(1) refl refl refl tail_failed(2) this] tail_failed(3)
    show ?thesis by simp
  next
    case (resolved v c1 w1 vs)
    from "5.IH"(1)[OF resolved(1) "5.prems"(2)] have st: "stuck S c1" and d: "d \<notin> S" by auto
    from "5.IH"(2)[OF resolved(1) refl refl refl resolved(2) st] d resolved(3)
    show ?thesis by auto
  qed
qed

lemma requires_stuck:
  assumes "map_of (singletons c) m = None" "map_of (services c) m = None"
  shows "stuck {x. x = m \<or> requires c x m} c"
  unfolding stuck_def
proof (intro ballI conjI allI impI)
  fix n assume n: "n \<in> {x. x = m \<or> requires c x m}"
  then show "map_of (singletons c) n = None"
    using assms(1) by (auto elim: requires.cases)
  fix cfg assume cfg: "map_of (services c) n = Some cfg"
  with assms(2) have "n \<noteq> m" by auto
  with n have "requires c n m" by simp
  then show "\<exists>b f d. implementation cfg = Function b f \<and> d \<in> set (dependencies cfg) \<and>
                 d \<in> {x. x = m \<or> requires c x m}"
    using cfg by (cases rule: requires.cases) auto
qed

subsection \<open>Chains of requirements\<close>

lemma needs_requires: "needs c x d \<Longrightarrow> requires c x d"
  unfolding needs_def by (auto intro: requires.direct)

lemma needs_chain: "needs c x d \<Longrightarrow> requires c d m \<Longrightarrow> requires c x m"
  unfolding needs_def by (auto intro: requires.chain)

lemma requires_first: "requires c x m \<Longrightarrow> \<exists>d. needs c x d \<and> (d = m \<or> requires c d m)"
  by (erule requires.cases) (auto simp: needs_def)

lemma requires_then_needs: "requires c n x \<Longrightarrow> needs c x d \<Longrightarrow> requires c n d"
  by (induction rule: requires.induct) (auto intro: requires.chain needs_requires)

lemma requires_registered: "requires c n m \<Longrightarrow> \<exists>cfg. map_of (services c) n = Some cfg"
  by (erule requires.cases) auto

lemma requires_declared:
  "requires c n m \<Longrightarrow> \<exists>p cfg. map_of (services c) p = Some cfg \<and> m \<in> set (dependencies cfg)"
  by (induction rule: requires.induct) auto

lemma needs_earlier: "frame c w c1 w1 \<Longrightarrow> needs c1 x d \<Longrightarrow> needs c x d"
  by (auto simp: needs_def frame_def map_le_def dom_def)

lemma requires_earlier: "requires c1 x y \<Longrightarrow> frame c w c1 w1 \<Longrightarrow> requires c x y"
proof (induction rule: requires.induct)
  case (direct n cfg b f m)
  then have "needs c1 n m" by (auto simp: needs_def)
  with direct.prems have "needs c n m" by (rule needs_earlier)
  then show ?case by (rule needs_requires)
next
  case (chain n cfg b f d m)
  then have "needs c1 n d" by (auto simp: needs_def)
  with chain.prems have "needs c n d" by (rule needs_earlier)
  moreover from chain have "requires c d m" by simp
  ultimately show ?case by (rule needs_chain)
qed

lemma requires_rank:
  assumes "\<And>x d. Q x \<Longrightarrow> needs c x d \<Longrightarrow> Q d \<and> f x < (f d :: nat)"
  shows "requires c n m \<Longrightarrow> Q n \<Longrightarrow> Q m \<and> f n < f m"
proof (induction rule: requires.induct)
  case (direct n cfg b f' m)
  then have "needs c n m" by (auto simp: needs_def)
  with assms direct.prems show ?case by blast
next
  case (chain n cfg b f' d m)
  then have "needs c n d" by (auto simp: needs_def)
  with assms chain.prems have "Q d \<and> f n < f d" by blast
  with chain.IH show ?case by auto
qed

lemma cycle_stuck: "stuck {x. \<exists>y. (x = y \<or> requires c x y) \<and> requires c y y} c"
  unfolding stuck_def
proof (intro ballI)
  fix x assume "x \<in> {x. \<exists>y. (x = y \<or> requires c x y) \<and> requires c y y}"
  then obtain y where xy: "requires c x y" and yy: "requires c y y" by blast
  from requires_first[OF xy] obtain d where d: "needs c x d" "d = y \<or> requires c d y" by blast
  with yy have "d \<in> {x. \<exists>y. (x = y \<or> requires c x y) \<and> requires c y y}" by blast
  with d(1) show "map_of (singletons c) x = None \<and>
        (\<forall>cfg. map_of (services c) x = Some cfg \<longrightarrow>
           (\<exists>b f d. implementation cfg = Function b f \<and> d \<in> set (dependencies cfg) \<and>
              d \<in> {x. \<exists>y. (x = y \<or> requires c x y) \<and> requires c y y}))"
    unfolding needs_def by auto
qed

subsection \<open>Where an error comes from\<close>

lemma raised_below_earlier:
  assumes fr: "frame c w c1 w1" and rb: "raised_below c1 n e"
  shows "raised_below c n e"
proof (cases e)
  case (ServiceNotRegistered m)
  with rb have m: "m = n \<or> requires c1 n m"
    and miss: "map_of (singletons c1) m = None" "map_of (services c1) m = None"
    by (simp_all add: raised_below_def)
  from m fr have "m = n \<or> requires c n m" by (blast dest: requires_earlier)
  moreover from miss fr have "map_of (singletons c) m = None" "map_of (services c) m = None"
    by (auto simp: frame_def map_le_def dom_def)
  ultimately show ?thesis using ServiceNotRegistered by (simp add: raised_below_def)
next
  case (FactoryNotRegistered m)
  with rb show ?thesis by (simp add: raised_below_def)
next
  case (Thrown s)
  with rb have "\<exists>p cfg b f args. (p = n \<or> requires c1 n p) \<and>
      map_of (singletons c1) p = None \<and>
      map_of (services c1) p = Some cfg \<and> implementation cfg = Function b f \<and>
      body f args = Throw s"
    by (simp add: raised_below_def)
  then obtain p cfg b f args where
    p: "p = n \<or> requires c1 n p" and u: "map_of (singletons c1) p = None"
    and rest: "map_of (services c1) p = Some cfg"
      "implementation cfg = Function b f" "body f args = Throw s"
    by blast
  from p fr have "p = n \<or> requires c n p" by (blast dest: requires_earlier)
  moreover from rest(1) fr have "map_of (services c) p = Some cfg" by (simp add: frame_def)
  moreover from u fr have "map_of (singletons c) p = None"
    by (auto simp: frame_def map_le_def dom_def)
  ultimately have "\<exists>p cfg b f args. (p = n \<or> requires c n p) \<and>
      map_of (singletons c) p = None \<and> map_of (services c) p = Some cfg \<and>
      implementation cfg = Function b f \<and> body f args = Throw s"
    using rest(2,3) by blast
  with Thrown show ?thesis by (simp add: raised_below_def)
qed

lemma raised_below_needs:
  assumes nd: "needs c x d" and rb: "raised_below c d e"
  shows "raised_below c x e"
proof (cases e)
  case (ServiceNotRegistered m)
  with rb have "m = d \<or> requires c d m"
    and miss: "map_of (singletons c) m = None" "map_of (services c) m = None"
    by (simp_all add: raised_below_def)
  with nd have "requires c x m" by (blast intro: needs_requires needs_chain)
  with miss ServiceNotRegistered show ?thesis by (simp add: raised_below_def)
next
  case (FactoryNotRegistered m)
  with rb show ?thesis by (simp add: raised_below_def)
next
  case (Thrown s)
  with rb have "\<exists>p cfg b f args. (p = d \<or> requires c d p) \<and>
      map_of (singletons c) p = None \<and>
      map_of (services c) p = Some cfg \<and> implementation cfg = Function b f \<and>
      body f args = Throw s"
    by (simp add: raised_below_def)
  then obtain p cfg b f args where
    p: "p = d \<or> requires c d p" and rest: "map_of (singletons c) p = None"
      "map_of (services c) p = Some cfg"
      "implementation cfg = Function b f" "body f args = Throw s"
    by blast
  from p nd have "requires c x p" by (blast intro: needs_requires needs_chain)
  with rest have "\<exists>p cfg b f args. (p = x \<or> requires c x p) \<and>
      map_of (singletons c) p = None \<and> map_of (services c) p = Some cfg \<and>
      implementation cfg = Function b f \<and> body f args = Throw s"
    by blast
  with Thrown show ?thesis by (simp add: raised_below_def)
qed

lemma resolve_errors_below:
  "resolve k c w n = Some (Inl e, c', w') \<Longrightarrow> raised_below c n e"
  "createInstance k c w cfg = Some (Inl e, c', w') \<Longrightarrow>
     map_of (singletons c) x = None \<Longrightarrow> map_of (services c) x = Some cfg \<Longrightarrow> raised_below c x e"
  "resolveDependencies k c w ds = Some (Inl e, c', w') \<Longrightarrow> \<exists>d\<in>set ds. raised_below c d e"
proof (induction k c w n and k c w cfg and k c w ds
       arbitrary: e c' w' and e c' w' x and e c' w'
       rule: resolve_createInstance_resolveDependencies.induct)
  case (1 c w n)
  then show ?case by simp
next
  case (2 k c w n)
  from "2.prems" show ?case
  proof (cases rule: resolve_Suc_cases)
    case (failed cfg e')
    with "2.IH"[OF failed(1,2), of e c' w' n] show ?thesis by auto
  qed (simp_all add: raised_below_def)
next
  case (3 k c w cfg)
  from "3.prems"(1) show ?case
  proof (cases rule: createInstance_cases)
    case (dep_failed b f e')
    with "3.IH"[OF dep_failed(1), of e c' w'] obtain d where
      d: "d \<in> set (dependencies cfg)" "raised_below c d e"
      by auto
    from d(1) dep_failed(1) "3.prems"(2,3) have "needs c x d"
      by (auto simp: needs_def)
    then show ?thesis using d(2) by (rule raised_below_needs)
  next
    case (called b f args w1)
    then obtain s where s: "e = Thrown s" "body f args = Throw s"
      by (auto split: if_splits dest: construct_error invoke_error)
    from called(1) "3.prems"(2,3) s(2) have
      "\<exists>p cfg b f args. (p = x \<or> requires c x p) \<and> map_of (singletons c) p = None \<and>
         map_of (services c) p = Some cfg \<and>
         implementation cfg = Function b f \<and> body f args = Throw s"
      by blast
    with s(1) show ?thesis by (simp add: raised_below_def)
  qed simp_all
next
  case (4 k c w)
  then show ?case by simp
next
  case (5 k c w d ds)
  from "5.prems" show ?case
  proof (cases rule: resolveDependencies_Cons_cases)
    case (head_failed e')
    with "5.IH"(1)[of e c' w'] show ?thesis by auto
  next
    case (tail_failed v c1 w1 e')
    with "5.IH"(2)[OF tail_failed(1) refl refl refl, of e c' w'] obtain d' where
      d': "d' \<in> set ds" "raised_below c1 d' e"
      by auto
    from resolve_frame(1)[OF tail_failed(1)] d'(2) have "raised_below c d' e"
      by (rule raised_below_earlier)
    with d'(1) show ?thesis by auto
  qed simp_all
qed

lemma raised_below_cases:
  assumes "raised_below c n e" and "\<exists>cfg. map_of (services c) n = Some cfg"
  shows "(\<exists>m. e = ServiceNotRegistered m \<and> requires c n m \<and>
              map_of (singletons c) m = None \<and> map_of (services c) m = None) \<or>
         (\<exists>s p cfg b f args. e = Thrown s \<and> (p = n \<or> requires c n p) \<and>
              map_of (singletons c) p = None \<and> map_of (services c) p = Some cfg \<and>
              implementation cfg = Function b f \<and> body f args = Throw s)"
proof (cases e)
  case (ServiceNotRegistered m)
  with assms show ?thesis by (auto simp: raised_below_def)
next
  case (FactoryNotRegistered m)
  with assms show ?thesis by (simp add: raised_below_def)
next
  case (Thrown s)
  with assms(1) show ?thesis by (simp add: raised_below_def)
qed

subsection \<open>Termination on a well-founded dependency graph\<close>

lemma finite_dependency_graph: "finite (dependency_graph c)"
proof -
  have "dependency_graph c \<subseteq>
          (\<Union>p\<in>set (services c). set (dependencies (snd p))) \<times> fst ` set (services c)"
    unfolding dependency_graph_def
    by (auto dest!: map_of_SomeD intro: rev_bexI rev_image_eqI)
  then show ?thesis by (rule finite_subset) simp
qed

lemma resolves_when_wf_on:
  assumes "wf r"
    and step: "\<And>x d. P x \<Longrightarrow> needs c0 x d \<Longrightarrow> map_of (singletons c0) d = None \<Longrightarrow>
                 (d, x) \<in> r \<and> P d"
  shows "P n \<Longrightarrow> services c = services c0 \<Longrightarrow>
         map_of (singletons c0) \<subseteq>\<^sub>m map_of (singletons c) \<Longrightarrow>
         \<exists>k x. resolve k c w n = Some x"
  using assms(1)
proof (induction n arbitrary: c w rule: wf_induct_rule)
  case (less n)
  note Pn = less.prems(1) and sv = less.prems(2) and le = less.prems(3)
  show ?case
  proof (cases "map_of (singletons c) n")
    case (Some v)
    then have "resolve (Suc 0) c w n = Some (Inr v, c, w)" by simp
    then show ?thesis by blast
  next
    case None
    note nc = this
    show ?thesis
    proof (cases "map_of (services c) n")
      case None
      with nc have "resolve (Suc 0) c w n = Some (Inl (ServiceNotRegistered n), c, w)" by simp
      then show ?thesis by blast
    next
      case (Some cfg)
      show ?thesis
      proof (cases "implementation cfg")
        case (Value v)
        with nc Some have "\<exists>x. resolve (Suc 0) c w n = Some x"
          by (simp split: if_splits)
        then show ?thesis by blast
      next
        case (Function b f)
        from nc le have n0: "map_of (singletons c0) n = None"
          by (auto simp: map_le_def dom_def)
        have deps: "\<exists>k y. resolveDependencies k c' w' ds = Some y"
          if "set ds \<subseteq> set (dependencies cfg)" "services c' = services c0"
             "map_of (singletons c) \<subseteq>\<^sub>m map_of (singletons c')" for ds c' w'
          using that
        proof (induction ds arbitrary: c' w')
          case Nil
          have "resolveDependencies 0 c' w' [] = Some (Inr [], c', w')" by simp
          then show ?case by blast
        next
          case (Cons d ds)
          from le Cons.prems(3) have le': "map_of (singletons c0) \<subseteq>\<^sub>m map_of (singletons c')"
            by (rule map_le_trans)
          have "\<exists>k x. resolve k c' w' d = Some x"
          proof (cases "map_of (singletons c') d")
            case (Some v)
            then have "resolve (Suc 0) c' w' d = Some (Inr v, c', w')" by simp
            then show ?thesis by blast
          next
            case None
            with le' have d0: "map_of (singletons c0) d = None"
              by (auto simp: map_le_def dom_def)
            from Cons.prems(1) have "d \<in> set (dependencies cfg)" by simp
            with n0 Some sv Function have "needs c0 n d"
              by (auto simp: needs_def)
            from step[OF Pn this d0] have "(d, n) \<in> r" "P d" by simp_all
            from less.IH[OF this Cons.prems(2) le'] show ?thesis .
          qed
          then obtain k1 r1 c1 w1 where r1: "resolve k1 c' w' d = Some (r1, c1, w1)"
            by (metis prod_cases3)
          show ?case
          proof (cases r1)
            case (Inl e)
            with r1 have "resolveDependencies k1 c' w' (d # ds) = Some (Inl e, c1, w1)"
              by (simp del: resolve.simps)
            then show ?thesis by blast
          next
            case (Inr v)
            from resolve_frame(1)[OF r1] Cons.prems(2,3) have
              "services c1 = services c0" "map_of (singletons c) \<subseteq>\<^sub>m map_of (singletons c1)"
              by (auto simp: frame_def intro: map_le_trans)
            with Cons.IH[of c1 w1] Cons.prems(1) obtain k2 y where
              y: "resolveDependencies k2 c1 w1 ds = Some y"
              by auto
            obtain r2 c2 w2 where yy: "y = (r2, c2, w2)" by (cases y)
            let ?k = "max k1 k2"
            from r1 have a: "resolve ?k c' w' d = Some (r1, c1, w1)"
              by (rule fuel_mono(1)[rotated]) simp
            from y have b: "resolveDependencies ?k c1 w1 ds = Some (r2, c2, w2)"
              unfolding yy by (rule fuel_mono(2)[rotated]) simp
            from a b Inr have "\<exists>y. resolveDependencies ?k c' w' (d # ds) = Some y"
              by (cases r2) (simp_all del: resolve.simps)
            then show ?thesis by blast
          qed
        qed
        from deps[of "dependencies cfg" c w] sv obtain k y where
          y: "resolveDependencies k c w (dependencies cfg) = Some y"
          by auto
        obtain rs c1 w1 where yy: "y = (rs, c1, w1)" by (cases y)
        from y yy Function have "\<exists>x. createInstance k c w cfg = Some x"
          by (cases rs) (auto split: prod.splits)
        then obtain r c2 w2 where "createInstance k c w cfg = Some (r, c2, w2)"
          by (metis prod_cases3)
        with nc Some have "\<exists>x. resolve (Suc k) c w n = Some x"
          by (cases r) (simp_all del: createInstance.simps)
        then show ?thesis by blast
      qed
    qed
  qed
qed

lemma resolves_when_wf:
  assumes "wf (dependency_graph c0)"
    and "services c = services c0" "map_of (singletons c0) \<subseteq>\<^sub>m map_of (singletons c)"
  shows "\<exists>k x. resolve k c w n = Some x"
proof -
  have "(d, x) \<in> dependency_graph c0 \<and> True"
    if "needs c0 x d" "map_of (singletons c0) d = None" for x d
    using that by (auto simp: needs_def dependency_graph_def)
  from resolves_when_wf_on [where P = "\<lambda>x. True", OF assms(1) this TrueI assms(2,3)]
  show ?thesis .
qed

lemma resolves_when_no_cycle_below:
  assumes "\<forall>x. (x = n \<or> requires c n x) \<longrightarrow> \<not> requires c x x"
  shows "\<exists>k y. resolve k c w n = Some y"
proof -
  let ?P = "\<lambda>x. x = n \<or> requires c n x"
  let ?r = "{(d, x). ?P x \<and> needs c x d}"
  have "?r \<subseteq> (\<Union>p\<in>set (services c). set (dependencies (snd p))) \<times> fst ` set (services c)"
    by (auto simp: needs_def dest!: map_of_SomeD intro: rev_bexI rev_image_eqI)
  then have fin: "finite ?r" by (rule finite_subset) simp
  have tr: "requires c b a \<and> ?P b" if "(a, b) \<in> ?r\<^sup>+" for a b
    using that
  proof (induction rule: trancl_induct)
    case (base y)
    then show ?case by (auto intro: needs_requires)
  next
    case (step y z)
    then show ?case by (auto intro: needs_chain)
  qed
  have "acyclic ?r"
    unfolding acyclic_def using tr assms by blast
  with fin have wf: "wf ?r" by (rule finite_acyclic_wf)
  have step: "(d, x) \<in> ?r \<and> ?P d" if "?P x" "needs c x d" for x d
    using that by (auto intro: needs_requires requires_then_needs)
  have "?P n" by simp
  from resolves_when_wf_on [where P = ?P, OF wf step this refl map_le_refl]
  show ?thesis .
qed

lemma first_dependency_cycle:
  assumes "\<forall>n\<in>S. map_of (singletons c) n = None \<and>
             (\<exists>cfg b f d ds. map_of (services c) n = Some cfg \<and>
                implementation cfg = Function b f \<and> dependencies cfg = d # ds \<and> d \<in> S)"
  shows "n \<in> S \<Longrightarrow> resolve k c w n = None"
proof (induction k arbitrary: n)
  case 0
  show ?case by simp
next
  case (Suc k)
  from assms Suc.prems obtain cfg b f d ds where
    nc: "map_of (singletons c) n = None" and cfg: "map_of (services c) n = Some cfg"
    and f: "implementation cfg = Function b f" and ds: "dependencies cfg = d # ds" and d: "d \<in> S"
    by blast
  from Suc.IH[OF d] have "resolve k c w d = None" .
  then have "resolveDependencies k c w (d # ds) = None" by (simp del: resolve.simps)
  with f ds have "createInstance k c w cfg = None" by simp
  with nc cfg show ?case by (simp del: createInstance.simps)
qed

subsection \<open>Checks that run over a concrete service store\<close>

lemma no_cycle_below_if_ranked:
  assumes ranked: "list_all (\<lambda>p. Q (fst p) \<longrightarrow>
              list_all (\<lambda>d. Q d \<and> f (fst p) < (f d :: nat)) (dependencies (snd p))) (services c)"
    and "Q n"
  shows "\<forall>x. (x = n \<or> requires c n x) \<longrightarrow> \<not> requires c x x"
proof -
  have down: "Q d \<and> f x < f d" if "Q x" "needs c x d" for x d
  proof -
    from that(2) obtain cfg where "map_of (services c) x = Some cfg" "d \<in> set (dependencies cfg)"
      unfolding needs_def by blast
    from map_of_SomeD[OF this(1)] ranked that(1) this(2) show ?thesis
      by (auto simp: list_all_iff)
  qed
  have below: "Q m \<and> f a < f m" if "requires c a m" "Q a" for a m
    using down that by (rule requires_rank)
  show ?thesis
  proof (intro allI impI notI)
    fix x
    assume "x = n \<or> requires c n x"
    with \<open>Q n\<close> have "Q x" using below[of n x] by blast
    moreover assume "requires c x x"
    ultimately have "f x < f x" using below[of x x] by blast
    then show False by simp
  qed
qed

lemma required_names_registered:
  assumes "list_all (\<lambda>p. list_all (\<lambda>d. map_of (services c) d \<noteq> None) (dependencies (snd p)))
             (services c)"
  shows "\<forall>m. requires c n m \<longrightarrow>
           map_of (singletons c) m \<noteq> None \<or> map_of (services c) m \<noteq> None"
proof (intro allI impI)
  fix m
  assume "requires c n m"
  from requires_declared[OF this] obtain p cfg where
    "map_of (services c) p = Some cfg" "m \<in> set (dependencies cfg)"
    by blast
  from map_of_SomeD[OF this(1)] assms this(2) have "map_of (services c) m \<noteq> None"
    by (auto simp: list_all_iff)
  then show "map_of (singletons c) m \<noteq> None \<or> map_of (services c) m \<noteq> None" ..
qed

lemma nothing_throws:
  assumes "list_all (\<lambda>p. case implementation (snd p) of
               Value v \<Rightarrow> True | Function b f \<Rightarrow> (\<forall>args s. body f args \<noteq> Throw s))
             (services c)"
  shows "\<forall>p cfg b f args s. (p = n \<or> requires c n p) \<longrightarrow> map_of (singletons c) p = None \<longrightarrow>
           map_of (services c) p = Some cfg \<longrightarrow> implementation cfg = Function b f \<longrightarrow>
           body f args \<noteq> Throw s"
proof (intro allI impI)
  fix p cfg b f args s
  assume "map_of (services c) p = Some cfg" "implementation cfg = Function b f"
  from map_of_SomeD[OF this(1)] assms this(2) show "body f args \<noteq> Throw s"
    by (auto simp: list_all_iff)
qed

lemmas example_defs =
  registerServices_def registerSingleton_def register_def registerFactory_def new_container_def
  startup_def a_class_def config_def construct_def invoke_def no_options_def Let_def
  logger_cached_def logger_built_def logger_overwritten_def database_built_def
  transient_config_def with_report_def report_built_def report_built_twice_def
  repository_cached_def repository_built_def email_cached_def email_built_def service_built_def
  with_factory_def factory_called_def with_ghost_def ghost_met_def cyclic_def
  value_in_cycle_def value_cycle_resolved_def b_built_def ghost_after_thrower_def t_called_def
  ghost_after_cycle_def

lemma bootstrap_acyclic: "acyclic (dependency_graph (registerServices new_container))"
proof (rule acyclicI_order [where f = bootstrap_rank])
  fix d n
  assume "(d, n) \<in> dependency_graph (registerServices new_container)"
  then show "bootstrap_rank n < bootstrap_rank d"
    by (auto simp: dependency_graph_def example_defs bootstrap_rank_def split: if_splits)
qed

section \<open>Singleton identity\<close>

text \<open>
  C1. For a name whose descriptor is singleton-flagged (as \<^verbatim>\<open>registerSingleton\<close> stores it), if
  \<^verbatim>\<open>resolve\<close> returns an instance, that instance is in the singleton cache afterwards; and
  after any run of further calls other than \<^verbatim>\<open>clear\<close> (registrations, resolutions, factory
  resolutions, queries), \<^verbatim>\<open>resolve\<close> returns the identical instance and leaves the container
  and the runtime untouched: nothing is constructed again.
\<close>

theorem singleton_identity:
  assumes "map_of (services c) n = Some cfg" and "singleton cfg"
    and "resolve k c w n = Some (Inr v, c1, w1)"
    and "Clear \<notin> set between" and "perform_all j c1 w1 between = Some (c2, w2)"
  shows "map_of (singletons c1) n = Some v \<and>
         resolve (Suc i) c2 w2 n = Some (Inr v, c2, w2)"
proof -
  from assms(3,1,2) have "map_of (singletons c1) n = Some v"
    by (rule resolve_singleton_cached)
  moreover from assms(5,4) this have "map_of (singletons c2) n = Some v"
    by (rule perform_all_keeps_cached)
  ultimately show ?thesis by simp
qed

theorem singleton_identity_witness:
  "map_of (services (registerServices new_container)) ''logger''
     = Some \<lparr>implementation = a_class ''LoggerService'', singleton = True,
             dependencies = [''config''], factory = False\<rparr> \<and>
   resolve 2 (registerServices new_container) startup ''logger''
     = Some (Inr (Ref 1), logger_cached, logger_built) \<and>
   perform_all 3 logger_cached logger_built
     [Resolve ''databaseService'', Register ''logger'' (Value (Prim ''other'')) no_options]
     = Some (logger_overwritten, database_built) \<and>
   map_of (singletons logger_cached) ''logger'' = Some (Ref 1) \<and>
   resolve 1 logger_overwritten database_built ''logger''
     = Some (Inr (Ref 1), logger_overwritten, database_built)"
proof -
  let ?cfg = "\<lparr>implementation = a_class ''LoggerService'', singleton = True,
               dependencies = [''config''], factory = False\<rparr>"
  let ?between = "[Resolve ''databaseService'', Register ''logger'' (Value (Prim ''other'')) no_options]"
  have h1: "map_of (services (registerServices new_container)) ''logger'' = Some ?cfg"
    by (simp add: example_defs)
  have h2: "singleton ?cfg" by simp
  have h3: "resolve 2 (registerServices new_container) startup ''logger''
              = Some (Inr (Ref 1), logger_cached, logger_built)"
    by (simp add: example_defs eval_nat_numeral)
  have h4: "Clear \<notin> set ?between" by simp
  have h5: "perform_all 3 logger_cached logger_built ?between
              = Some (logger_overwritten, database_built)"
    by (simp add: example_defs eval_nat_numeral)
  from singleton_identity [OF h1 h2 h3 h4 h5, of 0] h1 h3 h5 show ?thesis by simp
qed

section \<open>Plain values\<close>



section \<open>Reset\<close>

text \<open>
  C8. After \<^verbatim>\<open>clear()\<close> the service store, the singleton cache and the factory table are
  empty; \<^verbatim>\<open>has\<close> is false for every name, \<^verbatim>\<open>resolve\<close> of every name raises
  ServiceNotRegistered for that name and changes nothing, and \<^verbatim>\<open>getRegisteredServices\<close>
  returns the empty list.
\<close>

theorem clear_empties_everything:
  "services (clear c) = [] \<and> singletons (clear c) = [] \<and> factories (clear c) = [] \<and>
   has (clear c) n = False \<and>
   resolve (Suc k) (clear c) w n = Some (Inl (ServiceNotRegistered n), clear c, w) \<and>
   getRegisteredServices (clear c) = []"
  by (simp add: clear_def has_def map_has_def getRegisteredServices_def)

section \<open>Existence check\<close>

text \<open>
  C9. \<^verbatim>\<open>has(name)\<close> is true exactly when the name is a key of the service store or of the
  factory table. As a call it always answers with that flag (it never raises and needs no
  resolution depth), and it hands back the container and the runtime exactly as they
  were: all three stores are unchanged, nothing is constructed, nothing is cached.
\<close>

theorem has_only_looks_up:
  "has c n = (n \<in> fst ` set (services c) \<or> n \<in> fst ` set (factories c)) \<and>
   perform k c w (Has n) = Some (Flag (has c n), c, w)"
  by (simp add: has_def map_has_def map_of_eq_None_iff)

section \<open>Re-registration and the cache\<close>

text \<open>
  C10. \<^verbatim>\<open>register(name, implementation, options)\<close> leaves the singleton cache and the
  factory table as they are, gives \<open>name\<close> the new descriptor and leaves the descriptor of
  every other name alone. So when \<open>name\<close> already has a cached instance, \<^verbatim>\<open>resolve(name)\<close>
  after the re-registration, and after any further calls other than \<^verbatim>\<open>clear\<close>, still
  returns the cached instance, whatever the new implementation and dependencies are.
\<close>

theorem register_keeps_cached_singleton:
  assumes "map_of (singletons c) n = Some v"
    and "Clear \<notin> set later" and "perform_all j (register c n i opts) w later = Some (c2, w2)"
  shows "singletons (register c n i opts) = singletons c \<and>
         factories (register c n i opts) = factories c \<and>
         (\<forall>m. m \<noteq> n \<longrightarrow> map_of (services (register c n i opts)) m = map_of (services c) m) \<and>
         (\<exists>cfg. map_of (services (register c n i opts)) n = Some cfg \<and> implementation cfg = i) \<and>
         resolve (Suc k) (register c n i opts) w n = Some (Inr v, register c n i opts, w) \<and>
         resolve (Suc k) c2 w2 n = Some (Inr v, c2, w2)"
proof -
  have s: "singletons (register c n i opts) = singletons c"
    by (simp add: register_def Let_def)
  with assms(1) have "map_of (singletons (register c n i opts)) n = Some v" by simp
  with assms(3,2) have "map_of (singletons c2) n = Some v"
    by (rule perform_all_keeps_cached)
  with s assms(1) show ?thesis
    by (simp add: register_def Let_def AList.update_conv')
qed

theorem register_keeps_cached_singleton_witness:
  "map_of (singletons logger_cached) ''logger'' = Some (Ref 1) \<and>
   perform_all 3 (register logger_cached ''logger'' (Value (Prim ''other'')) no_options)
     logger_built [Resolve ''databaseService'']
     = Some (logger_overwritten, database_built) \<and>
   map_of (services (register logger_cached ''logger'' (Value (Prim ''other'')) no_options)) ''logger''
     = Some \<lparr>implementation = Value (Prim ''other''), singleton = False, dependencies = [],
             factory = False\<rparr> \<and>
   resolve 1 (register logger_cached ''logger'' (Value (Prim ''other'')) no_options) logger_built
     ''logger''
     = Some (Inr (Ref 1), register logger_cached ''logger'' (Value (Prim ''other'')) no_options,
             logger_built) \<and>
   resolve 1 logger_overwritten database_built ''logger''
     = Some (Inr (Ref 1), logger_overwritten, database_built)"
proof -
  let ?c = "register logger_cached ''logger'' (Value (Prim ''other'')) no_options"
  have h1: "map_of (singletons logger_cached) ''logger'' = Some (Ref 1)"
    by (simp add: example_defs)
  have h2: "Clear \<notin> set [Resolve ''databaseService'']" by simp
  have h3: "perform_all 3 ?c logger_built [Resolve ''databaseService'']
              = Some (logger_overwritten, database_built)"
    by (simp add: example_defs eval_nat_numeral)
  have d: "map_of (services ?c) ''logger''
             = Some \<lparr>implementation = Value (Prim ''other''), singleton = False, dependencies = [],
                     factory = False\<rparr>"
    by (simp add: example_defs)
  from register_keeps_cached_singleton [OF h1 h2 h3, of 0] h1 h3 d show ?thesis by simp
qed

section \<open>Transient services\<close>

text \<open>
  C2, amended. For a name that is not cached and whose descriptor is not singleton-flagged
  and has a function as implementation, each of two successive \<^verbatim>\<open>resolve\<close> calls that
  return resolves the declared dependencies again and calls the implementation again (the
  trace ends with a call of its own each time); and when the implementation builds a new
  object at both calls, the two instances are distinct, whatever the dependency values.
\<close>

theorem transient_constructed_anew:
  assumes "map_of (singletons c) n = None" and "map_of (services c) n = Some cfg"
    and "\<not> singleton cfg" and "implementation cfg = Function b f"
    and "resolve (Suc k) c w n = Some (Inr v1, c1, w1)"
    and "resolve (Suc j) c1 w1 n = Some (Inr v2, c2, w2)"
  shows "\<exists>args1 u1 args2 u2.
           resolveDependencies k c w (dependencies cfg) = Some (Inr args1, c1, u1) \<and>
           calls w1 = calls u1 @ [(label f, args1)] \<and>
           resolveDependencies j c1 w1 (dependencies cfg) = Some (Inr args2, c2, u2) \<and>
           calls w2 = calls u2 @ [(label f, args2)] \<and>
           (body f args1 = Fresh \<longrightarrow> body f args2 = Fresh \<longrightarrow> v1 \<noteq> v2)"
proof -
  from assms(5,1,2,3) have ci1: "createInstance k c w cfg = Some (Inr v1, c1, w1)"
    by (cases rule: resolve_Suc_cases) auto
  from ci1 assms(4) obtain args1 u1 where
    d1: "resolveDependencies k c w (dependencies cfg) = Some (Inr args1, c1, u1)"
    and call1: "(if b then construct f args1 u1 else invoke f args1 u1) = (Inr v1, w1)"
    by (cases rule: createInstance_cases) auto
  from resolve_frame(3)[OF d1] have sv: "services c1 = services c"
    by (simp add: frame_def)
  from d1 assms(1,2,3) have nc1: "map_of (singletons c1) n = None"
    by (rule transient_stays_uncached)
  from assms(6) nc1 sv assms(2,3) have ci2: "createInstance j c1 w1 cfg = Some (Inr v2, c2, w2)"
    by (cases rule: resolve_Suc_cases) auto
  from ci2 assms(4) obtain args2 u2 where
    d2: "resolveDependencies j c1 w1 (dependencies cfg) = Some (Inr args2, c2, u2)"
    and call2: "(if b then construct f args2 u2 else invoke f args2 u2) = (Inr v2, w2)"
    by (cases rule: createInstance_cases) auto
  from call1 have t1: "calls w1 = calls u1 @ [(label f, args1)]"
    by (auto split: if_splits dest: construct_world invoke_world)
  from call2 have t2: "calls w2 = calls u2 @ [(label f, args2)]"
    by (auto split: if_splits dest: construct_world invoke_world)
  from resolve_frame(3)[OF d2] have le: "next_ref w1 \<le> next_ref u2"
    by (simp add: frame_def)
  have "v1 \<noteq> v2" if "body f args1 = Fresh" "body f args2 = Fresh"
  proof -
    from call1 that(1) have "v1 = Ref (next_ref u1)" "next_ref w1 = Suc (next_ref u1)"
      by (auto simp: construct_Fresh invoke_Fresh split: if_splits)
    moreover from call2 that(2) have "v2 = Ref (next_ref u2)"
      by (auto simp: construct_Fresh invoke_Fresh split: if_splits)
    ultimately show ?thesis using le by auto
  qed
  with d1 d2 t1 t2 show ?thesis by blast
qed

theorem transient_constructed_anew_witness:
  "map_of (services with_report) ''report''
     = Some \<lparr>implementation = a_class ''Report'', singleton = False, dependencies = [''logger''],
             factory = False\<rparr> \<and>
   resolve 2 with_report logger_built ''report'' = Some (Inr (Ref 2), with_report, report_built) \<and>
   resolve 2 with_report report_built ''report''
     = Some (Inr (Ref 3), with_report, report_built_twice) \<and>
   (\<exists>args1 u1 args2 u2.
      resolveDependencies 1 with_report logger_built [''logger'']
        = Some (Inr args1, with_report, u1) \<and>
      calls report_built = calls u1 @ [(''Report'', args1)] \<and>
      resolveDependencies 1 with_report report_built [''logger'']
        = Some (Inr args2, with_report, u2) \<and>
      calls report_built_twice = calls u2 @ [(''Report'', args2)] \<and>
      Ref 2 \<noteq> Ref (3::nat))"
proof -
  let ?f = "\<lparr>label = ''Report'', body = (\<lambda>args. Fresh)\<rparr>"
  let ?cfg = "\<lparr>implementation = Function True ?f, singleton = False,
               dependencies = [''logger''], factory = False\<rparr>"
  have h1: "map_of (singletons with_report) ''report'' = None"
    by (simp add: example_defs)
  have h2: "map_of (services with_report) ''report'' = Some ?cfg"
    by (simp add: example_defs)
  have h3: "\<not> singleton ?cfg" by simp
  have h4: "implementation ?cfg = Function True ?f" by simp
  have h5: "resolve (Suc 1) with_report logger_built ''report''
              = Some (Inr (Ref 2), with_report, report_built)"
    by (simp add: example_defs eval_nat_numeral)
  have h6: "resolve (Suc 1) with_report report_built ''report''
              = Some (Inr (Ref 3), with_report, report_built_twice)"
    by (simp add: example_defs eval_nat_numeral)
  from transient_constructed_anew [OF h1 h2 h3 h4 h5 h6] h2 h5 h6
  show ?thesis
    by (simp add: a_class_def numeral_2_eq_2 del: resolve.simps resolveDependencies.simps)
qed

text \<open>
  C2 as stated fails for a plain value registered without the singleton flag: both
  \<^verbatim>\<open>resolve\<close> calls return the registered object itself, the same reference, and leave
  container and runtime as they were.
\<close>

theorem transient_plain_value_counterexample:
  "map_of (services transient_config) ''config''
     = Some \<lparr>implementation = Value config, singleton = False, dependencies = [],
             factory = False\<rparr> \<and>
   resolve 1 transient_config startup ''config'' = Some (Inr config, transient_config, startup) \<and>
   resolve 2 transient_config startup ''config'' = Some (Inr config, transient_config, startup)"
  by (simp add: example_defs eval_nat_numeral)

section \<open>Injection order\<close>

text \<open>
  C4. A descriptor whose implementation is a function and whose declared dependencies are
  \<open>[d1, d2, d3]\<close>: when the recursive \<^verbatim>\<open>resolve\<close> calls for \<open>d1\<close>, \<open>d2\<close>, \<open>d3\<close>,
  made in this order and each starting where the one before ended, return \<open>v1\<close>, \<open>v2\<close>,
  \<open>v3\<close>, then the implementation is called (with \<^verbatim>\<open>new\<close> or plainly) with exactly
  \<open>[v1, v2, v3]\<close>, this call is the next entry of the trace, and \<^verbatim>\<open>createInstance\<close>
  answers with what that call answers; so does \<^verbatim>\<open>resolve\<close> of an uncached name that has
  this descriptor.
\<close>

theorem dependencies_injected_in_order:
  assumes "implementation cfg = Function b f" and "dependencies cfg = [d1, d2, d3]"
    and "resolve k c w d1 = Some (Inr v1, c1, w1)"
    and "resolve k c1 w1 d2 = Some (Inr v2, c2, w2)"
    and "resolve k c2 w2 d3 = Some (Inr v3, c3, w3)"
  shows "\<exists>r w4.
           (if b then construct f [v1, v2, v3] w3 else invoke f [v1, v2, v3] w3) = (r, w4) \<and>
           calls w4 = calls w3 @ [(label f, [v1, v2, v3])] \<and>
           createInstance k c w cfg = Some (r, c3, w4) \<and>
           (map_of (singletons c) n = None \<longrightarrow> map_of (services c) n = Some cfg \<longrightarrow>
              (\<exists>c4. resolve (Suc k) c w n = Some (r, c4, w4)))"
proof -
  obtain r w4 where
    call: "(if b then construct f [v1, v2, v3] w3 else invoke f [v1, v2, v3] w3) = (r, w4)"
    by (cases "if b then construct f [v1, v2, v3] w3 else invoke f [v1, v2, v3] w3")
  then have t: "calls w4 = calls w3 @ [(label f, [v1, v2, v3])]"
    by (auto split: if_splits dest: construct_world invoke_world)
  from assms(3-5) have
    "resolveDependencies k c w [d1, d2, d3] = Some (Inr [v1, v2, v3], c3, w3)"
    by (simp del: resolve.simps)
  with assms(1,2) call have ci: "createInstance k c w cfg = Some (r, c3, w4)"
    by (auto split: if_splits)
  then have "map_of (singletons c) n = None \<longrightarrow> map_of (services c) n = Some cfg \<longrightarrow>
             (\<exists>c4. resolve (Suc k) c w n = Some (r, c4, w4))"
    by (cases r) (simp_all del: createInstance.simps)
  with call t ci show ?thesis by (intro exI conjI)
qed

theorem dependencies_injected_in_order_witness:
  "resolve 4 (registerServices new_container) startup ''studentRepository''
     = Some (Inr (Ref 3), repository_cached, repository_built) \<and>
   resolve 4 repository_cached repository_built ''emailService''
     = Some (Inr (Ref 4), email_cached, email_built) \<and>
   resolve 4 email_cached email_built ''logger'' = Some (Inr (Ref 1), email_cached, email_built) \<and>
   createInstance 4 (registerServices new_container) startup
     \<lparr>implementation = a_class ''StudentService'', singleton = True,
      dependencies = [''studentRepository'', ''emailService'', ''logger''], factory = False\<rparr>
     = Some (Inr (Ref 5), email_cached, service_built) \<and>
   calls service_built = calls email_built @ [(''StudentService'', [Ref 3, Ref 4, Ref 1])]"
proof -
  let ?c = "registerServices new_container"
  let ?f = "\<lparr>label = ''StudentService'', body = (\<lambda>args. Fresh)\<rparr>"
  let ?cfg = "\<lparr>implementation = Function True ?f, singleton = True,
               dependencies = [''studentRepository'', ''emailService'', ''logger''],
               factory = False\<rparr>"
  have h3: "implementation ?cfg = Function True ?f" by simp
  have h4: "dependencies ?cfg = [''studentRepository'', ''emailService'', ''logger'']" by simp
  have h5: "resolve 4 ?c startup ''studentRepository''
              = Some (Inr (Ref 3), repository_cached, repository_built)"
    by (simp add: example_defs eval_nat_numeral)
  have h6: "resolve 4 repository_cached repository_built ''emailService''
              = Some (Inr (Ref 4), email_cached, email_built)"
    by (simp add: example_defs eval_nat_numeral)
  have h7: "resolve 4 email_cached email_built ''logger''
              = Some (Inr (Ref 1), email_cached, email_built)"
    by (simp add: example_defs eval_nat_numeral)
  have call: "construct ?f [Ref 3, Ref 4, Ref 1] email_built = (Inr (Ref 5), service_built)"
    by (simp add: example_defs)
  from dependencies_injected_in_order [OF h3 h4 h5 h6 h7] call
  have "createInstance 4 ?c startup ?cfg = Some (Inr (Ref 5), email_cached, service_built) \<and>
        calls service_built = calls email_built @ [(''StudentService'', [Ref 3, Ref 4, Ref 1])]"
    by (auto simp del: createInstance.simps)
  with h5 h6 h7 show ?thesis by (simp add: a_class_def del: resolve.simps createInstance.simps)
qed

section \<open>Factories\<close>



section \<open>Unregistered names\<close>

text \<open>
  C3, amended. A name with no cache entry and no descriptor makes \<^verbatim>\<open>resolve\<close> raise
  ServiceNotRegistered for that name, with container and runtime unchanged, and it still
  does after \<^verbatim>\<open>registerFactory\<close> of the same name. When resolving \<open>n\<close> requires, through
  uncached function-implemented services, a name with no cache entry and no descriptor,
  \<^verbatim>\<open>resolve\<close> of \<open>n\<close> never returns a value: whatever it answers is ServiceNotRegistered
  for such a name that \<open>n\<close> requires, or an error thrown by the function of \<open>n\<close> or of an
  uncached service that \<open>n\<close> requires. And when neither \<open>n\<close> nor a service it requires
  requires itself, and none of their functions throws, \<^verbatim>\<open>resolve\<close> of \<open>n\<close> does answer: from
  some depth bound on it raises ServiceNotRegistered for an unregistered name that \<open>n\<close>
  requires. Both conditions look only at what \<open>n\<close> requires, not at the rest of the
  container.
\<close>

theorem unregistered_name_raises:
  "(map_of (singletons c) n = None \<longrightarrow> map_of (services c) n = None \<longrightarrow>
      resolve (Suc k) c w n = Some (Inl (ServiceNotRegistered n), c, w) \<and>
      resolve (Suc k) (registerFactory c n g deps) w n
        = Some (Inl (ServiceNotRegistered n), registerFactory c n g deps, w)) \<and>
   (\<forall>m. requires c n m \<longrightarrow> map_of (singletons c) m = None \<longrightarrow> map_of (services c) m = None \<longrightarrow>
      (\<forall>j r c' w'. resolve j c w n = Some (r, c', w') \<longrightarrow>
         (\<exists>m'. r = Inl (ServiceNotRegistered m') \<and> requires c n m' \<and>
               map_of (singletons c) m' = None \<and> map_of (services c) m' = None) \<or>
         (\<exists>s p cfg b f args. r = Inl (Thrown s) \<and> (p = n \<or> requires c n p) \<and>
               map_of (singletons c) p = None \<and> map_of (services c) p = Some cfg \<and>
               implementation cfg = Function b f \<and> body f args = Throw s)) \<and>
      ((\<forall>x. (x = n \<or> requires c n x) \<longrightarrow> \<not> requires c x x) \<longrightarrow>
       (\<forall>p cfg b f args s. (p = n \<or> requires c n p) \<longrightarrow> map_of (singletons c) p = None \<longrightarrow>
          map_of (services c) p = Some cfg \<longrightarrow> implementation cfg = Function b f \<longrightarrow>
          body f args \<noteq> Throw s) \<longrightarrow>
         (\<exists>i m' c' w'. requires c n m' \<and>
            map_of (singletons c) m' = None \<and> map_of (services c) m' = None \<and>
            (\<forall>j\<ge>i. resolve j c w n = Some (Inl (ServiceNotRegistered m'), c', w')))))"
  (is "?direct \<and> ?transitive"
   is "_ \<and> (\<forall>m. _ \<longrightarrow> _ \<longrightarrow> _ \<longrightarrow>
              (\<forall>j r c' w'. _ \<longrightarrow> ?answer r) \<and> (_ \<longrightarrow> _ \<longrightarrow> ?raises))")
proof -
  have direct: ?direct
    by (simp add: registerFactory_def)
  have answer: "(\<exists>m'. r = Inl (ServiceNotRegistered m') \<and> requires c n m' \<and>
               map_of (singletons c) m' = None \<and> map_of (services c) m' = None) \<or>
         (\<exists>s p cfg b f args. r = Inl (Thrown s) \<and> (p = n \<or> requires c n p) \<and>
               map_of (singletons c) p = None \<and> map_of (services c) p = Some cfg \<and>
               implementation cfg = Function b f \<and> body f args = Throw s)"
    if req: "requires c n m"
      and m: "map_of (singletons c) m = None" "map_of (services c) m = None"
      and res: "resolve j c w n = Some (r, c', w')" for m j r c' w'
  proof -
    from m have "stuck {x. x = m \<or> requires c x m} c" by (rule requires_stuck)
    from stuck_never_resolves(1)[OF res this] req obtain e where e: "r = Inl e"
      by (cases r) auto
    from resolve_errors_below(1)[OF res[unfolded e]] have "raised_below c n e" .
    from raised_below_cases[OF this requires_registered[OF req]] e show ?thesis by simp
  qed
  have raises: "\<exists>i m' c' w'. requires c n m' \<and>
            map_of (singletons c) m' = None \<and> map_of (services c) m' = None \<and>
            (\<forall>j\<ge>i. resolve j c w n = Some (Inl (ServiceNotRegistered m'), c', w'))"
    if req: "requires c n m"
      and m: "map_of (singletons c) m = None" "map_of (services c) m = None"
      and acyc: "\<forall>x. (x = n \<or> requires c n x) \<longrightarrow> \<not> requires c x x"
      and quiet: "\<forall>p cfg b f args s. (p = n \<or> requires c n p) \<longrightarrow>
          map_of (singletons c) p = None \<longrightarrow>
          map_of (services c) p = Some cfg \<longrightarrow> implementation cfg = Function b f \<longrightarrow>
          body f args \<noteq> Throw s" for m
  proof -
    from resolves_when_no_cycle_below[OF acyc, of w] obtain i r c' w' where
      res: "resolve i c w n = Some (r, c', w')"
      by (metis prod_cases3)
    from answer[OF req m res] quiet obtain m' where
      "r = Inl (ServiceNotRegistered m')" "requires c n m'"
      "map_of (singletons c) m' = None" "map_of (services c) m' = None"
      by blast
    moreover from res have "\<forall>j\<ge>i. resolve j c w n = Some (r, c', w')"
      by (auto intro: fuel_mono(1))
    ultimately show ?thesis by blast
  qed
  have ?transitive
  proof (intro allI impI; rule conjI; intro allI impI)
    fix m j r c' w'
    assume "requires c n m" "map_of (singletons c) m = None" "map_of (services c) m = None"
      "resolve j c w n = Some (r, c', w')"
    then show "?answer r" by (rule answer)
  next
    fix m
    assume "requires c n m" "map_of (singletons c) m = None" "map_of (services c) m = None"
      "\<forall>x. (x = n \<or> requires c n x) \<longrightarrow> \<not> requires c x x"
      "\<forall>p cfg b f args s. (p = n \<or> requires c n p) \<longrightarrow>
          map_of (singletons c) p = None \<longrightarrow>
          map_of (services c) p = Some cfg \<longrightarrow> implementation cfg = Function b f \<longrightarrow>
          body f args \<noteq> Throw s"
    then show ?raises by (rule raises)
  qed
  with direct show ?thesis by (rule conjI)
qed

theorem unregistered_name_raises_witness:
  "map_of (singletons with_ghost) ''ghost'' = None \<and> map_of (services with_ghost) ''ghost'' = None \<and>
   requires with_ghost ''dashboard'' ''ghost'' \<and>
   requires with_ghost ''ping'' ''ping'' \<and>
   resolve 1 with_ghost startup ''ghost''
     = Some (Inl (ServiceNotRegistered ''ghost''), with_ghost, startup) \<and>
   resolve 1 (registerFactory with_ghost ''ghost'' \<lparr>label = ''makeGhost'', body = (\<lambda>args. Fresh)\<rparr> [])
       startup ''ghost''
     = Some (Inl (ServiceNotRegistered ''ghost''),
             registerFactory with_ghost ''ghost'' \<lparr>label = ''makeGhost'', body = (\<lambda>args. Fresh)\<rparr> [],
             startup) \<and>
   resolve 4 with_ghost startup ''dashboard''
     = Some (Inl (ServiceNotRegistered ''ghost''), ghost_met, logger_built) \<and>
   (\<exists>i m' c' w'. requires with_ghost ''dashboard'' m' \<and>
      (\<forall>j\<ge>i. resolve j with_ghost startup ''dashboard''
                = Some (Inl (ServiceNotRegistered m'), c', w')))"
proof -
  let ?g = "\<lparr>label = ''makeGhost'', body = (\<lambda>args. Fresh)\<rparr>"
  have a: "map_of (singletons with_ghost) ''ghost'' = None"
    and b: "map_of (services with_ghost) ''ghost'' = None"
    by (simp_all add: example_defs)
  have "requires with_ghost ''audit'' ''ghost''"
    by (rule requires.direct [where cfg = "\<lparr>implementation = a_class ''Audit'', singleton = True,
          dependencies = [''logger'', ''ghost''], factory = False\<rparr>"])
       (simp_all add: example_defs)
  then have req: "requires with_ghost ''dashboard'' ''ghost''"
    by (rule requires.chain [where cfg = "\<lparr>implementation = a_class ''Dashboard'', singleton = True,
          dependencies = [''audit''], factory = False\<rparr>", rotated -1])
       (simp_all add: example_defs)
  have "requires with_ghost ''pong'' ''ping''"
    by (rule requires.direct [where cfg = "\<lparr>implementation = a_class ''Pong'', singleton = True,
          dependencies = [''ping''], factory = False\<rparr>"])
       (simp_all add: example_defs)
  then have loop: "requires with_ghost ''ping'' ''ping''"
    by (rule requires.chain [where cfg = "\<lparr>implementation = a_class ''Ping'', singleton = True,
          dependencies = [''pong''], factory = False\<rparr>", rotated -1])
       (simp_all add: example_defs)
  have acyc: "\<forall>x. (x = ''dashboard'' \<or> requires with_ghost ''dashboard'' x) \<longrightarrow>
                \<not> requires with_ghost x x"
    by (rule no_cycle_below_if_ranked
          [where Q = "\<lambda>x. x \<noteq> ''ping'' \<and> x \<noteq> ''pong''"
             and f = "\<lambda>x. if x = ''dashboard'' then 0 else if x = ''audit'' then 1
                          else Suc (Suc (bootstrap_rank x))"])
       (simp_all add: example_defs bootstrap_rank_def)
  have quiet: "\<forall>p cfg b f args s. (p = ''dashboard'' \<or> requires with_ghost ''dashboard'' p) \<longrightarrow>
          map_of (singletons with_ghost) p = None \<longrightarrow>
          map_of (services with_ghost) p = Some cfg \<longrightarrow>
          implementation cfg = Function b f \<longrightarrow> body f args \<noteq> Throw s"
    by (rule nothing_throws) (simp add: example_defs)
  have run: "resolve 4 with_ghost startup ''dashboard''
               = Some (Inl (ServiceNotRegistered ''ghost''), ghost_met, logger_built)"
    by (simp add: example_defs eval_nat_numeral)
  from unregistered_name_raises [of with_ghost "''ghost''" 0 startup ?g "[]"] a b
  have 1: "resolve 1 with_ghost startup ''ghost''
             = Some (Inl (ServiceNotRegistered ''ghost''), with_ghost, startup)"
    and 2: "resolve 1 (registerFactory with_ghost ''ghost'' ?g []) startup ''ghost''
             = Some (Inl (ServiceNotRegistered ''ghost''), registerFactory with_ghost ''ghost'' ?g [],
                     startup)"
    by (simp_all del: resolve.simps)
  from unregistered_name_raises [of with_ghost "''dashboard''" 0 startup ?g "[]",
         THEN conjunct2, THEN spec, THEN mp, THEN mp, THEN mp, OF req a b,
         THEN conjunct2, THEN mp, THEN mp, OF acyc quiet]
  have 3: "\<exists>i m' c' w'. requires with_ghost ''dashboard'' m' \<and>
      (\<forall>j\<ge>i. resolve j with_ghost startup ''dashboard''
                = Some (Inl (ServiceNotRegistered m'), c', w'))"
    by (elim exE conjE) (intro exI conjI, assumption+)
  from a b req loop 1 2 run 3 show ?thesis by (simp del: resolve.simps)
qed

text \<open>
  C3 as stated fails when something else happens before the unregistered name is reached.
  Here \<open>a\<close> depends on \<open>t\<close> and then on the unregistered \<open>ghost\<close>; the constructor of \<open>t\<close>
  throws, and \<^verbatim>\<open>resolve('a')\<close> raises that error, not ServiceNotRegistered.
\<close>

theorem missing_dependency_counterexample:
  "requires ghost_after_thrower ''a'' ''ghost'' \<and>
   map_of (singletons ghost_after_thrower) ''ghost'' = None \<and>
   map_of (services ghost_after_thrower) ''ghost'' = None \<and>
   resolve 2 ghost_after_thrower startup ''a''
     = Some (Inl (Thrown ''boom''), ghost_after_thrower, t_called)"
proof -
  have "requires ghost_after_thrower ''a'' ''ghost''"
    by (rule requires.direct [where cfg = "\<lparr>implementation = a_class ''A'', singleton = True,
          dependencies = [''t'', ''ghost''], factory = False\<rparr>"])
       (simp_all add: example_defs)
  then show ?thesis by (simp add: example_defs eval_nat_numeral)
qed

text \<open>
  Likewise when a dependency cycle comes first: \<open>a\<close> depends on \<open>b\<close> and then on \<open>ghost\<close>,
  \<open>b\<close> depends on \<open>a\<close>, and \<^verbatim>\<open>resolve('a')\<close> raises nothing at any depth bound.
\<close>

lemma missing_dependency_behind_cycle:
  "requires ghost_after_cycle ''a'' ''ghost'' \<and>
   map_of (singletons ghost_after_cycle) ''ghost'' = None \<and>
   map_of (services ghost_after_cycle) ''ghost'' = None \<and>
   (\<forall>k. resolve k ghost_after_cycle startup ''a'' = None)"
proof -
  have "requires ghost_after_cycle ''a'' ''ghost''"
    by (rule requires.direct [where cfg = "\<lparr>implementation = a_class ''A'', singleton = True,
          dependencies = [''b'', ''ghost''], factory = False\<rparr>"])
       (simp_all add: example_defs)
  moreover have cyc: "\<forall>n\<in>{''a'', ''b''}. map_of (singletons ghost_after_cycle) n = None \<and>
             (\<exists>cfg b f d ds. map_of (services ghost_after_cycle) n = Some cfg \<and>
                implementation cfg = Function b f \<and> dependencies cfg = d # ds \<and>
                d \<in> {''a'', ''b''})"
    by (auto simp: example_defs)
  have "\<forall>k. resolve k ghost_after_cycle startup ''a'' = None"
    using first_dependency_cycle [OF cyc, of "''a''"] by simp
  ultimately show ?thesis by (simp add: example_defs)
qed

section \<open>Termination and cycles\<close>

text \<open>
  C5, amended. When the declared dependency graph restricted to the names that are not
  cached is acyclic, \<^verbatim>\<open>resolve\<close> terminates: from some depth bound on it answers, with the
  same answer for every larger bound, whether or not every required name is registered.
  When \<open>n\<close>, or a service that \<open>n\<close> requires, requires itself through uncached
  function-implemented services (a cycle of any length, through any position of the
  dependency lists), \<^verbatim>\<open>resolve\<close> of \<open>n\<close> never returns a value, and what it may raise is
  ServiceNotRegistered for an unregistered name that \<open>n\<close> requires or an error thrown by a
  function that \<open>n\<close> requires, there being no error for a cycle. When moreover every name
  that \<open>n\<close> requires is cached or registered and none of these functions throws, no depth
  bound is enough: the recursion never ends.
\<close>

theorem resolve_terminates_unless_cyclic:
  "(acyclic (dependency_graph c) \<longrightarrow>
      (\<exists>k r c' w'. \<forall>j\<ge>k. resolve j c w n = Some (r, c', w'))) \<and>
   (\<forall>x. (x = n \<or> requires c n x) \<longrightarrow> requires c x x \<longrightarrow>
      (\<forall>k r c' w'. resolve k c w n = Some (r, c', w') \<longrightarrow>
         (\<exists>m. r = Inl (ServiceNotRegistered m) \<and> requires c n m \<and>
              map_of (singletons c) m = None \<and> map_of (services c) m = None) \<or>
         (\<exists>s p cfg b f args. r = Inl (Thrown s) \<and> (p = n \<or> requires c n p) \<and>
              map_of (singletons c) p = None \<and> map_of (services c) p = Some cfg \<and>
              implementation cfg = Function b f \<and> body f args = Throw s)) \<and>
      ((\<forall>m. requires c n m \<longrightarrow>
          map_of (singletons c) m \<noteq> None \<or> map_of (services c) m \<noteq> None) \<longrightarrow>
       (\<forall>p cfg b f args s. (p = n \<or> requires c n p) \<longrightarrow> map_of (singletons c) p = None \<longrightarrow>
          map_of (services c) p = Some cfg \<longrightarrow> implementation cfg = Function b f \<longrightarrow>
          body f args \<noteq> Throw s) \<longrightarrow>
         (\<forall>k. resolve k c w n = None)))"
  (is "?acyclic \<and> ?cyclic"
   is "_ \<and> (\<forall>x. _ \<longrightarrow> _ \<longrightarrow>
              (\<forall>k r c' w'. _ \<longrightarrow> ?answer r) \<and> (_ \<longrightarrow> _ \<longrightarrow> (\<forall>k. ?diverges k)))")
proof -
  have terminates: "\<exists>k r c' w'. \<forall>j\<ge>k. resolve j c w n = Some (r, c', w')"
    if "acyclic (dependency_graph c)"
  proof -
    from finite_dependency_graph that have "wf (dependency_graph c)" by (rule finite_acyclic_wf)
    from resolves_when_wf[OF this refl map_le_refl, of w n] obtain k r c' w' where
      "resolve k c w n = Some (r, c', w')"
      by (metis prod_cases3)
    then have "\<forall>j\<ge>k. resolve j c w n = Some (r, c', w')"
      by (auto intro: fuel_mono(1))
    then show ?thesis by blast
  qed
  have answer: "(\<exists>m. r = Inl (ServiceNotRegistered m) \<and> requires c n m \<and>
              map_of (singletons c) m = None \<and> map_of (services c) m = None) \<or>
         (\<exists>s p cfg b f args. r = Inl (Thrown s) \<and> (p = n \<or> requires c n p) \<and>
              map_of (singletons c) p = None \<and> map_of (services c) p = Some cfg \<and>
              implementation cfg = Function b f \<and> body f args = Throw s)"
    if x: "x = n \<or> requires c n x" and cyc: "requires c x x"
      and res: "resolve k c w n = Some (r, c', w')" for x k r c' w'
  proof -
    from x cyc have "n \<in> {x. \<exists>y. (x = y \<or> requires c x y) \<and> requires c y y}" by blast
    with stuck_never_resolves(1)[OF res cycle_stuck] obtain e where e: "r = Inl e"
      by (cases r) auto
    from x cyc have reg: "\<exists>cfg. map_of (services c) n = Some cfg"
      by (auto dest: requires_registered)
    from resolve_errors_below(1)[OF res[unfolded e]] have "raised_below c n e" .
    from raised_below_cases[OF this reg] e show ?thesis by simp
  qed
  have diverges: "resolve k c w n = None"
    if x: "x = n \<or> requires c n x" and cyc: "requires c x x"
      and registered: "\<forall>m. requires c n m \<longrightarrow>
          map_of (singletons c) m \<noteq> None \<or> map_of (services c) m \<noteq> None"
      and quiet: "\<forall>p cfg b f args s. (p = n \<or> requires c n p) \<longrightarrow>
          map_of (singletons c) p = None \<longrightarrow>
          map_of (services c) p = Some cfg \<longrightarrow> implementation cfg = Function b f \<longrightarrow>
          body f args \<noteq> Throw s" for x k
  proof (cases "resolve k c w n")
    case None
    then show ?thesis .
  next
    case (Some y)
    obtain r c' w' where "y = (r, c', w')" by (cases y)
    with Some have "resolve k c w n = Some (r, c', w')" by simp
    from answer[OF x cyc this] registered quiet have False by blast
    then show ?thesis ..
  qed
  from terminates have ?acyclic by (rule impI)
  moreover have ?cyclic
  proof (intro allI impI; rule conjI; intro allI impI)
    fix x k r c' w'
    assume "x = n \<or> requires c n x" "requires c x x" "resolve k c w n = Some (r, c', w')"
    then show "?answer r" by (rule answer)
  next
    fix x k
    assume "x = n \<or> requires c n x" "requires c x x"
      "\<forall>m. requires c n m \<longrightarrow>
          map_of (singletons c) m \<noteq> None \<or> map_of (services c) m \<noteq> None"
      "\<forall>p cfg b f args s. (p = n \<or> requires c n p) \<longrightarrow>
          map_of (singletons c) p = None \<longrightarrow>
          map_of (services c) p = Some cfg \<longrightarrow> implementation cfg = Function b f \<longrightarrow>
          body f args \<noteq> Throw s"
    then show "?diverges k" by (rule diverges)
  qed
  ultimately show ?thesis by (rule conjI)
qed

theorem resolve_terminates_unless_cyclic_witness:
  "acyclic (dependency_graph (registerServices new_container)) \<and>
   (\<exists>k r c' w'. \<forall>j\<ge>k.
      resolve j (registerServices new_container) startup ''studentController'' = Some (r, c', w')) \<and>
   requires cyclic ''a'' ''a'' \<and>
   (\<forall>k. resolve k cyclic startup ''a'' = None)"
proof -
  have "requires cyclic ''b'' ''a''"
    by (rule requires.direct [where cfg = "\<lparr>implementation = a_class ''B'', singleton = True,
          dependencies = [''a''], factory = False\<rparr>"])
       (simp_all add: example_defs)
  then have loop: "requires cyclic ''a'' ''a''"
    by (rule requires.chain [where cfg = "\<lparr>implementation = a_class ''A'', singleton = True,
          dependencies = [''x'', ''b''], factory = False\<rparr>", rotated -1])
       (simp_all add: example_defs)
  have registered: "\<forall>m. requires cyclic ''a'' m \<longrightarrow>
           map_of (singletons cyclic) m \<noteq> None \<or> map_of (services cyclic) m \<noteq> None"
    by (rule required_names_registered) (simp add: example_defs)
  have quiet: "\<forall>p cfg b f args s. (p = ''a'' \<or> requires cyclic ''a'' p) \<longrightarrow>
          map_of (singletons cyclic) p = None \<longrightarrow> map_of (services cyclic) p = Some cfg \<longrightarrow>
          implementation cfg = Function b f \<longrightarrow> body f args \<noteq> Throw s"
    by (rule nothing_throws) (simp add: example_defs)
  from resolve_terminates_unless_cyclic
         [of "registerServices new_container" startup "''studentController''",
          THEN conjunct1, THEN mp, OF bootstrap_acyclic]
  have 1: "\<exists>k r c' w'. \<forall>j\<ge>k.
      resolve j (registerServices new_container) startup ''studentController'' = Some (r, c', w')" .
  from resolve_terminates_unless_cyclic
         [of cyclic startup "''a''", THEN conjunct2, THEN spec, THEN mp, THEN mp,
          OF disjI1 [OF refl] loop, THEN conjunct2, THEN mp, THEN mp, OF registered quiet]
  have 2: "\<forall>k. resolve k cyclic startup ''a'' = None" .
  from bootstrap_acyclic 1 loop 2 show ?thesis by (simp del: resolve.simps)
qed

text \<open>
  C5 as stated fails for a cycle of declared dependencies that runs through a plain value:
  \<open>a\<close> is a plain value that declares \<open>b\<close>, the class \<open>b\<close> declares \<open>a\<close>, neither is
  cached, and \<^verbatim>\<open>resolve('b')\<close> returns an instance, because the dependencies of a plain
  value are never resolved.
\<close>

theorem cyclic_graph_counterexample:
  "(''a'', ''b'') \<in> dependency_graph value_in_cycle \<and>
   (''b'', ''a'') \<in> dependency_graph value_in_cycle \<and>
   map_of (singletons value_in_cycle) ''a'' = None \<and>
   map_of (singletons value_in_cycle) ''b'' = None \<and>
   resolve 2 value_in_cycle startup ''b'' = Some (Inr (Ref 1), value_cycle_resolved, b_built)"
  by (simp add: dependency_graph_def example_defs eval_nat_numeral)

end
